theory Spec2Isabelle
  imports Main "HOL-Library.Char_ord" "HOL-Library.List_Lexorder"
begin

section \<open>Interval primitives\<close>

text \<open>An interval is the Python tuple \<open>(start, end)\<close> of unbounded integers, read as the
  half-open range \<open>[start, end)\<close>; a genomic interval is \<open>(chrom, start, end)\<close>.\<close>

type_synonym interval = "int \<times> int"
type_synonym genomic_interval = "string \<times> int \<times> int"

text \<open>\<open>intervals_overlap\<close> of interval_overlap.py (and the local \<open>overlaps\<close> of
  union_peak.py): \<open>a_start < b_end and b_start < a_end\<close>.\<close>

definition intervals_overlap :: "interval \<Rightarrow> interval \<Rightarrow> bool" where
  "intervals_overlap a b = (case a of (a_start, a_end) \<Rightarrow> case b of (b_start, b_end) \<Rightarrow>
     a_start < b_end \<and> b_start < a_end)"

subsection \<open>merge_intervals / merge_intervals_1d\<close>

text \<open>The loop \<open>for s, e in intervals[1:]\<close>: \<open>merged\<close> is never empty here, its last
  element is either widened in place (\<open>merged[-1] = (last_s, max(last_e, e))\<close>) or a new
  interval is appended.\<close>

fun merge_loop :: "interval list \<Rightarrow> interval list \<Rightarrow> interval list" where
  "merge_loop merged [] = merged"
| "merge_loop merged ((s, e) # rest) =
     (case last merged of (last_s, last_e) \<Rightarrow>
        if s \<le> last_e
        then merge_loop (butlast merged @ [(last_s, max last_e e)]) rest
        else merge_loop (merged @ [(s, e)]) rest)"

text \<open>The function sorts the list it is given in place (\<open>intervals.sort(key=lambda x: x[0])\<close>,
  a stable sort), so the model returns two values: the contents of the caller's list after
  the call, and the returned list \<open>merged\<close>. On the empty list the function returns before
  sorting.\<close>

definition merge_intervals_st :: "interval list \<Rightarrow> interval list \<times> interval list" where
  "merge_intervals_st intervals =
     (if intervals = [] then (intervals, [])
      else let intervals' = sort_key fst intervals
           in (intervals', merge_loop [hd intervals'] (tl intervals')))"

text \<open>The returned value alone; interval_merge.py's \<open>merge_intervals\<close> and union_peak.py's
  \<open>merge_intervals_1d\<close> have the same body.\<close>

definition merge_intervals_1d :: "interval list \<Rightarrow> interval list" where
  "merge_intervals_1d intervals = snd (merge_intervals_st intervals)"

definition merge_intervals :: "interval list \<Rightarrow> interval list" where
  "merge_intervals intervals = snd (merge_intervals_st intervals)"

section \<open>Dictionaries of lists\<close>

text \<open>A Python \<open>dict\<close> keeps its keys in insertion order; it is modelled as an association
  list with distinct keys. \<open>setdefault_append k v d\<close> is \<open>d.setdefault(k, []).append(v)\<close>,
  which is also what \<open>d[k].append(v)\<close> does on a \<open>defaultdict(list)\<close>: a new key goes to
  the end with the one-element list, an existing key has \<open>v\<close> appended to its list.\<close>

fun setdefault_append :: "'k \<Rightarrow> 'v \<Rightarrow> ('k \<times> 'v list) list \<Rightarrow> ('k \<times> 'v list) list" where
  "setdefault_append k v [] = [(k, [v])]"
| "setdefault_append k v ((k', vs) # d) =
     (if k' = k then (k', vs @ [v]) # d else (k', vs) # setdefault_append k v d)"

text \<open>\<open>d[k][j].append(v)\<close> on a \<open>defaultdict(lambda: defaultdict(list))\<close>.\<close>

fun nested_append ::
  "'k \<Rightarrow> 'j \<Rightarrow> 'v \<Rightarrow> ('k \<times> ('j \<times> 'v list) list) list \<Rightarrow> ('k \<times> ('j \<times> 'v list) list) list" where
  "nested_append k j v [] = [(k, [(j, [v])])]"
| "nested_append k j v ((k', d') # d) =
     (if k' = k then (k', setdefault_append j v d') # d else (k', d') # nested_append k j v d)"

text \<open>Reading \<open>d[k]\<close> from a \<open>defaultdict(list)\<close>, or \<open>d.get(k, [])\<close>: a missing key
  reads as the empty list.\<close>

definition dd_get :: "('k \<times> 'v list) list \<Rightarrow> 'k \<Rightarrow> 'v list" where
  "dd_get d k = (case map_of d k of None \<Rightarrow> [] | Some vs \<Rightarrow> vs)"

section \<open>Pairwise overlap sweep (interval_overlap.py)\<close>

text \<open>The \<open>while i < len(a) and j < len(b)\<close> loop of \<open>find_overlaps_1d\<close>.\<close>

function sweep_1d ::
  "interval list \<Rightarrow> interval list \<Rightarrow> nat \<Rightarrow> nat \<Rightarrow> (nat \<times> nat) list \<Rightarrow> (nat \<times> nat) list" where
  "sweep_1d a b i j result =
     (if i < length a \<and> j < length b then
        let a_int = a ! i; b_int = b ! j;
            result' = (if intervals_overlap a_int b_int then result @ [(i, j)] else result)
        in if snd a_int \<le> snd b_int then sweep_1d a b (i + 1) j result'
           else sweep_1d a b i (j + 1) result'
      else result)"
  by pat_completeness auto
termination
  by (relation "measure (\<lambda>(a, b, i, j, result). (length a - i) + (length b - j))") auto

declare sweep_1d.simps [simp del]

text \<open>\<open>find_overlaps_1d\<close> sorts private copies (\<open>a = list(intervals_a); a.sort(...)\<close>), so
  the indices it reports are positions in the start-sorted copies.\<close>

definition find_overlaps_1d :: "interval list \<Rightarrow> interval list \<Rightarrow> (nat \<times> nat) list" where
  "find_overlaps_1d intervals_a intervals_b =
     (let a = sort_key fst intervals_a; b = sort_key fst intervals_b
      in sweep_1d a b 0 0 [])"

text \<open>\<open>find_overlaps_genomic\<close>: per chromosome lists of \<open>(start, end, original_index)\<close>,
  sorted by start, swept with the same two pointers.\<close>

definition group_indexed :: "genomic_interval list \<Rightarrow> (string \<times> (int \<times> int \<times> nat) list) list" where
  "group_indexed intervals =
     map (\<lambda>(chrom, l). (chrom, sort_key fst l))
       (foldl (\<lambda>grouped (idx, (chrom, start, end')). setdefault_append chrom (start, end', idx) grouped)
          [] (enumerate 0 intervals))"

function sweep_genomic ::
  "(int \<times> int \<times> nat) list \<Rightarrow> (int \<times> int \<times> nat) list \<Rightarrow> nat \<Rightarrow> nat \<Rightarrow> (nat \<times> nat) list
     \<Rightarrow> (nat \<times> nat) list" where
  "sweep_genomic list_a list_b i j overlaps =
     (if i < length list_a \<and> j < length list_b then
        (case list_a ! i of (a_start, a_end, a_idx) \<Rightarrow>
         case list_b ! j of (b_start, b_end, b_idx) \<Rightarrow>
           let overlaps' = (if a_start < b_end \<and> b_start < a_end
                            then overlaps @ [(a_idx, b_idx)] else overlaps)
           in if a_end \<le> b_end then sweep_genomic list_a list_b (i + 1) j overlaps'
              else sweep_genomic list_a list_b i (j + 1) overlaps')
      else overlaps)"
  by pat_completeness auto
termination
  by (relation "measure (\<lambda>(list_a, list_b, i, j, overlaps). (length list_a - i) + (length list_b - j))")
     auto

declare sweep_genomic.simps [simp del]

text \<open>The chromosomes of \<open>grouped_a.keys() & grouped_b.keys()\<close> are visited in the order of a
  Python set, which the language leaves open; the model takes them in the order of
  \<open>grouped_a\<close>. Only the order of the blocks of the result depends on it.\<close>

definition find_overlaps_genomic ::
  "genomic_interval list \<Rightarrow> genomic_interval list \<Rightarrow> (nat \<times> nat) list" where
  "find_overlaps_genomic intervals_a intervals_b =
     (let grouped_a = group_indexed intervals_a; grouped_b = group_indexed intervals_b
      in foldl (\<lambda>overlaps (chrom, list_a).
                  case map_of grouped_b chrom of
                    None \<Rightarrow> overlaps
                  | Some list_b \<Rightarrow> sweep_genomic list_a list_b 0 0 overlaps)
           [] grouped_a)"

section \<open>Union peak builder (union_peak.py)\<close>

text \<open>\<open>peaks_by_sample\<close> is a dict from sample id to a list of genomic intervals: an
  association list in insertion order. Step 1 of \<open>union_peaks\<close> walks samples and peaks in
  order and fills \<open>chrom_to_all_intervals\<close> and, when membership is wanted,
  \<open>chrom_to_sample_intervals\<close>.\<close>

definition collect_peaks ::
  "(string \<times> genomic_interval list) list \<Rightarrow> bool \<Rightarrow>
     (string \<times> interval list) list \<times> (string \<times> (string \<times> interval list) list) list" where
  "collect_peaks peaks_by_sample return_membership =
     foldl (\<lambda>st (sample, peaks).
              foldl (\<lambda>(chrom_to_all_intervals, chrom_to_sample_intervals) (chrom, start, end').
                       (setdefault_append chrom (start, end') chrom_to_all_intervals,
                        if return_membership
                        then nested_append chrom sample (start, end') chrom_to_sample_intervals
                        else chrom_to_sample_intervals))
                st peaks)
       ([], []) peaks_by_sample"

text \<open>Step 2: \<open>for chrom in sorted(chrom_to_all_intervals.keys())\<close>, merge and tag with the
  chromosome.\<close>

definition build_union_list :: "(string \<times> interval list) list \<Rightarrow> genomic_interval list" where
  "build_union_list chrom_to_all_intervals =
     concat (map (\<lambda>chrom. map (\<lambda>(s, e). (chrom, s, e))
                            (merge_intervals_1d (dd_get chrom_to_all_intervals chrom)))
               (sort (map fst chrom_to_all_intervals)))"

text \<open>The membership dict maps a union peak to the list of samples recorded for it.
  \<open>membership[u_key].append(sample)\<close> raises KeyError on a missing key: \<open>None\<close>.\<close>

type_synonym membership = "genomic_interval \<rightharpoonup> string list"

definition membership_append :: "membership \<Rightarrow> genomic_interval \<Rightarrow> string \<Rightarrow> membership option" where
  "membership_append m u_key sample =
     (case m u_key of None \<Rightarrow> None | Some l \<Rightarrow> Some (m(u_key \<mapsto> l @ [sample])))"

text \<open>The two-pointer loop of step 3 for one sample on one chromosome.\<close>

function member_sweep ::
  "interval list \<Rightarrow> (int \<times> int \<times> genomic_interval) list \<Rightarrow> string \<Rightarrow> nat \<Rightarrow> nat \<Rightarrow> membership
     \<Rightarrow> membership option" where
  "member_sweep ints union_chr sample i j m =
     (if i < length ints \<and> j < length union_chr then
        (case union_chr ! j of (u_s, u_e, u_key) \<Rightarrow>
           (case (if intervals_overlap (ints ! i) (u_s, u_e)
                  then membership_append m u_key sample else Some m) of
              None \<Rightarrow> None
            | Some m' \<Rightarrow>
                if snd (ints ! i) \<le> u_e then member_sweep ints union_chr sample (i + 1) j m'
                else member_sweep ints union_chr sample i (j + 1) m'))
      else Some m)"
  by pat_completeness auto
termination
  by (relation "measure (\<lambda>(ints, union_chr, sample, i, j, m). (length ints - i) + (length union_chr - j))")
     auto

declare member_sweep.simps [simp del]

text \<open>\<open>for sample, ints in sample_map.items()\<close>, with \<open>ints = sorted(ints, key=...)\<close>.\<close>

fun sample_loop ::
  "(string \<times> interval list) list \<Rightarrow> (int \<times> int \<times> genomic_interval) list \<Rightarrow> membership
     \<Rightarrow> membership option" where
  "sample_loop [] union_chr m = Some m"
| "sample_loop ((sample, ints) # rest) union_chr m =
     (case member_sweep (sort_key fst ints) union_chr sample 0 0 m of
        None \<Rightarrow> None
      | Some m' \<Rightarrow> sample_loop rest union_chr m')"

text \<open>\<open>for chrom, sample_map in chrom_to_sample_intervals.items()\<close>; a chromosome without
  union peaks is skipped.\<close>

fun chrom_loop ::
  "(string \<times> (string \<times> interval list) list) list \<Rightarrow>
     (string \<times> (int \<times> int \<times> genomic_interval) list) list \<Rightarrow> membership \<Rightarrow> membership option" where
  "chrom_loop [] union_by_chrom m = Some m"
| "chrom_loop ((chrom, sample_map) # rest) union_by_chrom m =
     (let union_chr = dd_get union_by_chrom chrom
      in if union_chr = [] then chrom_loop rest union_by_chrom m
         else (case sample_loop sample_map union_chr m of
                 None \<Rightarrow> None
               | Some m' \<Rightarrow> chrom_loop rest union_by_chrom m'))"

text \<open>\<open>union_by_chrom\<close>: the union peaks regrouped by chromosome as
  \<open>(s, e, (chrom, s, e))\<close> and sorted by start.\<close>

definition build_union_by_chrom ::
  "genomic_interval list \<Rightarrow> (string \<times> (int \<times> int \<times> genomic_interval) list) list" where
  "build_union_by_chrom union_list =
     map (\<lambda>(chrom, l). (chrom, sort_key fst l))
       (foldl (\<lambda>d (chrom, s, e). setdefault_append chrom (s, e, (chrom, s, e)) d) [] union_list)"

text \<open>\<open>union_peaks\<close>. The outer \<open>option\<close> is \<open>None\<close> when the KeyError above is raised; the
  inner one is Python's \<open>None\<close> for the membership that was not asked for. The dict
  comprehension \<open>{p: [] for p in union_list}\<close> gives every union peak the empty list, and
  the last loop replaces every list by \<open>sorted(set(...))\<close>.\<close>

definition union_peaks ::
  "(string \<times> genomic_interval list) list \<Rightarrow> bool \<Rightarrow>
     (genomic_interval list \<times> membership option) option" where
  "union_peaks peaks_by_sample return_membership =
     (case collect_peaks peaks_by_sample return_membership of
        (chrom_to_all_intervals, chrom_to_sample_intervals) \<Rightarrow>
          let union_list = build_union_list chrom_to_all_intervals
          in if \<not> return_membership then Some (union_list, None)
             else
               let membership = map_of (map (\<lambda>p. (p, [])) union_list);
                   union_by_chrom = build_union_by_chrom union_list
               in (case chrom_loop chrom_to_sample_intervals union_by_chrom membership of
                     None \<Rightarrow> None
                   | Some m \<Rightarrow>
                       Some (union_list, Some (\<lambda>k. map_option (\<lambda>l. sort (remdups l)) (m k)))))"

section \<open>Feature annotator (peak_annotation.py)\<close>

record GeneRecord =
  g_chrom :: string
  g_start :: int
  g_end :: int
  g_strand :: string
  g_gene_id :: string
  g_gene_name :: string
  g_tss :: int

record FeatureInterval =
  f_chrom :: string
  f_start :: int
  f_end :: int
  f_gene_name :: string
  f_tss :: int

text \<open>\<open>build_promoters\<close>: any strand other than \<open>"+"\<close> takes the \<open>else\<close> branch; a
  window that is empty after clamping is dropped.\<close>

fun build_promoters :: "GeneRecord list \<Rightarrow> int \<Rightarrow> int \<Rightarrow> FeatureInterval list" where
  "build_promoters [] upstream downstream = []"
| "build_promoters (g # genes) upstream downstream =
     (let (p_start, p_end) =
            (if g_strand g = ''+''
             then (max 0 (g_tss g - upstream), g_tss g + downstream)
             else (max 0 (g_tss g - downstream), g_tss g + upstream))
      in (if p_end > p_start
          then [\<lparr>f_chrom = g_chrom g, f_start = p_start, f_end = p_end,
                  f_gene_name = g_gene_name g, f_tss = g_tss g\<rparr>]
          else []) @ build_promoters genes upstream downstream)"

definition group_by_chrom_intervals ::
  "FeatureInterval list \<Rightarrow> (string \<times> FeatureInterval list) list" where
  "group_by_chrom_intervals intervals =
     map (\<lambda>(chrom, l). (chrom, sort_key f_start l))
       (foldl (\<lambda>grouped it. setdefault_append (f_chrom it) it grouped) [] intervals)"

definition group_by_chrom_peaks ::
  "genomic_interval list \<Rightarrow> (string \<times> (int \<times> int \<times> nat) list) list" where
  "group_by_chrom_peaks peaks =
     map (\<lambda>(chrom, l). (chrom, sort_key fst l))
       (foldl (\<lambda>grouped (idx, (chrom, start, end')). setdefault_append chrom (start, end', idx) grouped)
          [] (enumerate 0 peaks))"

text \<open>The four-argument \<open>intervals_overlap\<close> of peak_annotation.py.\<close>

definition intervals_overlap4 :: "int \<Rightarrow> int \<Rightarrow> int \<Rightarrow> int \<Rightarrow> bool" where
  "intervals_overlap4 a_start a_end b_start b_end = (a_start < b_end \<and> b_start < a_end)"

text \<open>\<open>assign_best_gene_by_tss_distance\<close>: the loop state is
  \<open>(best_gene, best_dist, best_signed)\<close>, started at \<open>("", 10**18, 0)\<close>.\<close>

fun assign_loop :: "int \<Rightarrow> FeatureInterval list \<Rightarrow> string \<times> int \<times> int \<Rightarrow> string \<times> int \<times> int" where
  "assign_loop peak_center [] st = st"
| "assign_loop peak_center (c # candidates) (best_gene, best_dist, best_signed) =
     (let signed = peak_center - f_tss c; dist = \<bar>signed\<bar>
      in if dist < best_dist
         then assign_loop peak_center candidates (f_gene_name c, dist, signed)
         else assign_loop peak_center candidates (best_gene, best_dist, best_signed))"

definition assign_best_gene_by_tss_distance :: "int \<Rightarrow> FeatureInterval list \<Rightarrow> string \<times> int" where
  "assign_best_gene_by_tss_distance peak_center candidates =
     (case assign_loop peak_center candidates ('''', 10 ^ 18, 0) of
        (best_gene, best_dist, best_signed) \<Rightarrow> (best_gene, best_signed))"

subsection \<open>annotate_overlaps\<close>

text \<open>\<open>while j < len(f_list) and f_list[j].end <= pstart: j += 1\<close>\<close>

function advance :: "FeatureInterval list \<Rightarrow> int \<Rightarrow> nat \<Rightarrow> nat" where
  "advance f_list pstart j =
     (if j < length f_list \<and> f_end (f_list ! j) \<le> pstart then advance f_list pstart (j + 1) else j)"
  by pat_completeness auto
termination
  by (relation "measure (\<lambda>(f_list, pstart, j). length f_list - j)") auto

declare advance.simps [simp del]

text \<open>\<open>while k < len(f_list) and f_list[k].start < pend\<close>, collecting into \<open>cand\<close>.\<close>

function scan ::
  "FeatureInterval list \<Rightarrow> int \<Rightarrow> int \<Rightarrow> nat \<Rightarrow> FeatureInterval list \<Rightarrow> FeatureInterval list" where
  "scan f_list pstart pend k cand =
     (if k < length f_list \<and> f_start (f_list ! k) < pend
      then scan f_list pstart pend (k + 1)
             (if intervals_overlap4 pstart pend (f_start (f_list ! k)) (f_end (f_list ! k))
              then cand @ [f_list ! k] else cand)
      else cand)"
  by pat_completeness auto
termination
  by (relation "measure (\<lambda>(f_list, pstart, pend, k, cand). length f_list - k)") auto

declare scan.simps [simp del]

text \<open>\<open>hits\<close> maps a peak index to its list of overlapping features; a peak without
  candidates gets no entry. \<open>hits.setdefault(pidx, []).extend(cand)\<close>.\<close>

type_synonym hits = "nat \<rightharpoonup> FeatureInterval list"

fun peak_loop :: "FeatureInterval list \<Rightarrow> (int \<times> int \<times> nat) list \<Rightarrow> nat \<Rightarrow> hits \<Rightarrow> hits" where
  "peak_loop f_list [] j hits = hits"
| "peak_loop f_list ((pstart, pend, pidx) # p_list) j hits =
     (let j' = advance f_list pstart j;
          cand = scan f_list pstart pend j' []
      in peak_loop f_list p_list j'
           (if cand \<noteq> []
            then hits(pidx \<mapsto> (case hits pidx of None \<Rightarrow> [] | Some l \<Rightarrow> l) @ cand)
            else hits))"

text \<open>\<open>feature_grouped\<close> is a dict that is only read: a map. The chromosomes of
  \<open>peak_grouped.keys() & feature_grouped.keys()\<close> are taken in the order of
  \<open>peak_grouped\<close>; every peak index lies under one chromosome, so \<open>hits\<close> as a map does
  not depend on that order.\<close>

definition annotate_overlaps ::
  "genomic_interval list \<Rightarrow> (string \<rightharpoonup> FeatureInterval list) \<Rightarrow> hits" where
  "annotate_overlaps peaks feature_grouped =
     (let peak_grouped = group_by_chrom_peaks peaks
      in foldl (\<lambda>hits (chrom, p_list).
                  case feature_grouped chrom of
                    None \<Rightarrow> hits
                  | Some f_list \<Rightarrow> peak_loop f_list p_list 0 hits)
           Map.empty peak_grouped)"

subsection \<open>Nearest TSS\<close>

text \<open>\<open>build_tss_index\<close>: chromosome to the pair (sorted TSS positions, gene names in the
  same order).\<close>

definition build_tss_index :: "GeneRecord list \<Rightarrow> (string \<times> int list \<times> string list) list" where
  "build_tss_index genes =
     map (\<lambda>(chrom, arr). let arr' = sort_key fst arr in (chrom, map fst arr', map snd arr'))
       (foldl (\<lambda>per_chrom g. setdefault_append (g_chrom g) (g_tss g, g_gene_name g) per_chrom)
          [] genes)"

text \<open>\<open>bisect.bisect_left\<close> of Python's standard library, as its reference implementation
  has it: \<open>while lo < hi: mid = (lo + hi) // 2; if a[mid] < x: lo = mid + 1 else: hi = mid\<close>.\<close>

function bisect_loop :: "int list \<Rightarrow> int \<Rightarrow> nat \<Rightarrow> nat \<Rightarrow> nat" where
  "bisect_loop a x lo hi =
     (if lo < hi then
        let mid = (lo + hi) div 2
        in if a ! mid < x then bisect_loop a x (mid + 1) hi
           else bisect_loop a x lo mid
      else lo)"
  by pat_completeness auto
termination
  by (relation "measure (\<lambda>(a, x, lo, hi). hi - lo)") auto

declare bisect_loop.simps [simp del]

definition bisect_left :: "int list \<Rightarrow> int \<Rightarrow> nat" where
  "bisect_left a x = bisect_loop a x 0 (length a)"

text \<open>\<open>nearest_tss\<close>: the candidates \<open>k - 1\<close> and \<open>k\<close> are Python integers (\<open>k - 1\<close> may be
  \<open>-1\<close>), tried in this order from the state \<open>(best_idx, best_dist, best_signed) =
  (None, 10**18, 0)\<close>. Reading \<open>name_list[best_idx]\<close> raises IndexError when \<open>name_list\<close>
  is too short: the result \<open>None\<close>.\<close>

definition nearest_step :: "int list \<Rightarrow> int \<Rightarrow> int option \<times> int \<times> int \<Rightarrow> int \<Rightarrow> int option \<times> int \<times> int" where
  "nearest_step tss_list pos st cand =
     (case st of (best_idx, best_dist, best_signed) \<Rightarrow>
        if 0 \<le> cand \<and> cand < int (length tss_list) then
          let signed = pos - tss_list ! nat cand; dist = \<bar>signed\<bar>
          in if dist < best_dist then (Some cand, dist, signed) else st
        else st)"

definition nearest_tss :: "int list \<Rightarrow> string list \<Rightarrow> int \<Rightarrow> (string \<times> int) option" where
  "nearest_tss tss_list name_list pos =
     (if tss_list = [] then Some ('''', 0)
      else
        let k = int (bisect_left tss_list pos)
        in (case foldl (nearest_step tss_list pos) (None, 10 ^ 18, 0) [k - 1, k] of
              (None, best_dist, best_signed) \<Rightarrow> Some ('''', 0)
            | (Some best_idx, best_dist, best_signed) \<Rightarrow>
                if nat best_idx < length name_list
                then Some (name_list ! nat best_idx, best_signed) else None))"

subsection \<open>annotate_peaks\<close>

text \<open>One output row. The source stores \<open>"peak_" + str(idx)\<close>, \<open>str(start)\<close>, \<open>str(end)\<close>
  and \<open>str(dist)\<close>; the model keeps the numbers.\<close>

record AnnotationRow =
  row_peak_id :: nat
  row_chrom :: string
  row_start :: int
  row_end :: int
  row_annotation :: string
  row_gene :: string
  row_distance_to_TSS :: int

definition annotate_row ::
  "hits \<Rightarrow> hits \<Rightarrow> (string \<times> int list \<times> string list) list \<Rightarrow> nat \<Rightarrow> genomic_interval
     \<Rightarrow> AnnotationRow option" where
  "annotate_row promoter_hits gene_hits tss_index idx peak =
     (case peak of (chrom, start, end') \<Rightarrow>
        let center = (start + end') div 2;
            res =
              (case promoter_hits idx of
                 Some cands \<Rightarrow>
                   Some (''promoter'', assign_best_gene_by_tss_distance center cands)
               | None \<Rightarrow>
                   (case gene_hits idx of
                      Some cands \<Rightarrow>
                        Some (''gene_body'', assign_best_gene_by_tss_distance center cands)
                    | None \<Rightarrow>
                        (case map_of tss_index chrom of
                           Some (tss_list, name_list) \<Rightarrow>
                             map_option (\<lambda>gd. (''intergenic'', gd)) (nearest_tss tss_list name_list center)
                         | None \<Rightarrow> Some (''intergenic'', '''', 0))))
        in map_option (\<lambda>(annotation, gene, dist).
               \<lparr>row_peak_id = idx, row_chrom = chrom, row_start = start, row_end = end',
                row_annotation = annotation, row_gene = gene, row_distance_to_TSS = dist\<rparr>) res)"

text \<open>The loop \<open>for idx, (chrom, start, end) in enumerate(peaks)\<close>; an exception in a row
  ends the call.\<close>

fun annotate_loop ::
  "hits \<Rightarrow> hits \<Rightarrow> (string \<times> int list \<times> string list) list \<Rightarrow> (nat \<times> genomic_interval) list
     \<Rightarrow> AnnotationRow list \<Rightarrow> AnnotationRow list option" where
  "annotate_loop promoter_hits gene_hits tss_index [] out = Some out"
| "annotate_loop promoter_hits gene_hits tss_index ((idx, peak) # rest) out =
     (case annotate_row promoter_hits gene_hits tss_index idx peak of
        None \<Rightarrow> None
      | Some row \<Rightarrow> annotate_loop promoter_hits gene_hits tss_index rest (out @ [row]))"

definition gene_body :: "GeneRecord \<Rightarrow> FeatureInterval" where
  "gene_body g = \<lparr>f_chrom = g_chrom g, f_start = g_start g, f_end = g_end g,
                  f_gene_name = g_gene_name g, f_tss = g_tss g\<rparr>"

definition annotate_peaks ::
  "genomic_interval list \<Rightarrow> GeneRecord list \<Rightarrow> int \<Rightarrow> int \<Rightarrow> AnnotationRow list option" where
  "annotate_peaks peaks genes promoter_upstream promoter_downstream =
     (let promoters = build_promoters genes promoter_upstream promoter_downstream;
          promoter_grouped = group_by_chrom_intervals promoters;
          gene_bodies = map gene_body genes;
          gene_grouped = group_by_chrom_intervals gene_bodies;
          promoter_hits = annotate_overlaps peaks (map_of promoter_grouped);
          gene_hits = annotate_overlaps peaks (map_of gene_grouped);
          tss_index = build_tss_index genes
      in annotate_loop promoter_hits gene_hits tss_index (enumerate 0 peaks) [])"

section \<open>Notions used to state the properties of union_peaks\<close>

text \<open>The definitions of this section are not part of the program. They name what the
  specification talks about: the (sample, peak) pairs in the order the loops of step 1
  visit them, the intervals pooled from all samples on a chromosome, the chromosome names
  in ascending order, the merged pool, and the fact that some interval of a list strictly
  overlaps the union peak with key \<open>k\<close> on chromosome \<open>c\<close>.\<close>

definition sample_peaks :: "(string \<times> genomic_interval list) list \<Rightarrow> (string \<times> genomic_interval) list" where
  "sample_peaks pbs = concat (map (\<lambda>(sample, peaks). map (\<lambda>p. (sample, p)) peaks) pbs)"

definition pooled :: "(string \<times> genomic_interval list) list \<Rightarrow> string \<Rightarrow> interval list" where
  "pooled pbs c = map snd (filter (\<lambda>p. fst p = c) (concat (map snd pbs)))"

definition chromosomes :: "(string \<times> genomic_interval list) list \<Rightarrow> string list" where
  "chromosomes pbs = sorted_list_of_set (fst ` set (concat (map snd pbs)))"

definition merged_pool :: "(string \<times> genomic_interval list) list \<Rightarrow> genomic_interval list" where
  "merged_pool pbs =
     concat (map (\<lambda>c. map (\<lambda>(s, e). (c, s, e)) (merge_intervals_1d (pooled pbs c)))
               (chromosomes pbs))"

definition hits_key :: "string \<Rightarrow> interval list \<Rightarrow> interval list \<Rightarrow> genomic_interval \<Rightarrow> bool" where
  "hits_key c U ints k \<longleftrightarrow> (\<exists>x \<in> set ints. \<exists>u \<in> set U. k = (c, u) \<and> intervals_overlap x u)"

section \<open>Properties of the merge\<close>

text \<open>Widening or appending only touches the last element of \<open>merged\<close>, so a prefix of
  \<open>merged\<close> can be pulled out of the loop.\<close>

lemma merge_loop_append: "merge_loop (ms @ [m]) rest = ms @ merge_loop [m] rest"
proof (induction rest arbitrary: ms m)
  case Nil
  show ?case by simp
next
  case (Cons x rest)
  obtain s e where x: "x = (s, e)" by (cases x)
  obtain ls le where m: "m = (ls, le)" by (cases m)
  show ?case
  proof (cases "s \<le> le")
    case True
    then show ?thesis using Cons.IH[of ms "(ls, max le e)"] by (simp add: x m)
  next
    case False
    then show ?thesis
      using Cons.IH[of "ms @ [m]" "(s, e)"] Cons.IH[of "[m]" "(s, e)"] by (simp add: x m)
  qed
qed

text \<open>On a start-sorted input the loop yields intervals that are strictly separated
  (each end below every later start) and still sorted by start.\<close>

lemma merge_loop_props:
  "sorted (map fst (m # rest)) \<Longrightarrow>
     sorted_wrt (\<lambda>a b. snd a < fst b) (merge_loop [m] rest) \<and>
     sorted (map fst (merge_loop [m] rest)) \<and>
     (\<forall>x \<in> set (merge_loop [m] rest). fst m \<le> fst x)"
proof (induction rest arbitrary: m)
  case Nil
  show ?case by simp
next
  case (Cons x rest)
  obtain s e where x: "x = (s, e)" by (cases x)
  obtain ls le where m: "m = (ls, le)" by (cases m)
  from Cons.prems have ls_s: "ls \<le> s" and srt: "sorted (map fst ((s, e) # rest))"
    and ls_all: "\<forall>y \<in> set rest. ls \<le> fst y"
    by (auto simp: x m)
  show ?case
  proof (cases "s \<le> le")
    case True
    have "sorted (map fst ((ls, max le e) # rest))" using ls_all srt by auto
    from Cons.IH[OF this] show ?thesis using True by (simp add: x m)
  next
    case False
    have eq: "merge_loop [m] (x # rest) = m # merge_loop [(s, e)] rest"
      using False merge_loop_append[of "[m]" "(s, e)" rest] by (simp add: x m)
    from Cons.IH[OF srt] show ?thesis using False ls_s unfolding eq by (auto simp: m)
  qed
qed

lemma merge_loop_separated_id:
  "sorted_wrt (\<lambda>a b. snd a < fst b) (m # rest) \<Longrightarrow> merge_loop [m] rest = m # rest"
proof (induction rest arbitrary: m)
  case Nil
  show ?case by simp
next
  case (Cons x rest)
  obtain s e where x: "x = (s, e)" by (cases x)
  obtain ls le where m: "m = (ls, le)" by (cases m)
  from Cons.prems have lt: "le < s" and sep: "sorted_wrt (\<lambda>a b. snd a < fst b) ((s, e) # rest)"
    by (auto simp: x m)
  have "merge_loop [m] (x # rest) = m # merge_loop [(s, e)] rest"
    using lt merge_loop_append[of "[m]" "(s, e)" rest] by (simp add: x m)
  then show ?case using Cons.IH[OF sep] by (simp add: x)
qed

lemma sort_key_hd_tl:
  "intervals \<noteq> [] \<Longrightarrow> hd (sort_key f intervals) # tl (sort_key f intervals) = sort_key f intervals"
proof -
  assume "intervals \<noteq> []"
  then have "sort_key f intervals \<noteq> []" by (metis length_sort length_0_conv)
  then show ?thesis by simp
qed

lemma merge_intervals_1d_nonempty:
  "X \<noteq> [] \<Longrightarrow>
     merge_intervals_1d X = merge_loop [hd (sort_key fst X)] (tl (sort_key fst X))"
  by (simp add: merge_intervals_1d_def merge_intervals_st_def Let_def)

lemma merge_intervals_1d_Nil [simp]: "merge_intervals_1d [] = []"
  by (simp add: merge_intervals_1d_def merge_intervals_st_def)

lemma merge_intervals_1d_props:
  "sorted_wrt (\<lambda>a b. snd a < fst b) (merge_intervals_1d X) \<and>
   sorted (map fst (merge_intervals_1d X))"
proof (cases "X = []")
  case True
  then show ?thesis by simp
next
  case False
  have "sorted (map fst (hd (sort_key fst X) # tl (sort_key fst X)))"
    unfolding sort_key_hd_tl[OF False] by (rule sorted_sort_key)
  from merge_loop_props[OF this] show ?thesis
    by (simp add: merge_intervals_1d_nonempty[OF False])
qed

lemma merge_intervals_1d_fixed:
  assumes sep: "sorted_wrt (\<lambda>a b. snd a < fst b) Y" and srt: "sorted (map fst Y)"
  shows "merge_intervals_1d Y = Y"
proof (cases Y)
  case Nil
  then show ?thesis by simp
next
  case (Cons m rest)
  have "sort_key fst Y = Y" using srt by (rule sort_key_id_if_sorted)
  moreover have "merge_loop [m] rest = m # rest" using sep Cons merge_loop_separated_id by blast
  ultimately show ?thesis using Cons by (simp add: merge_intervals_1d_nonempty)
qed

text \<open>Claim C5. For every sequence of intervals the output of \<open>merge_1d\<close> is pairwise
  disjoint and non-adjacent in ascending order: whenever \<open>i < j\<close> are positions of the
  output, the end of \<open>output[i]\<close> is strictly below the start of \<open>output[j]\<close>. The proof
  does not need the intervals to be well-formed, so the statement covers in particular
  every sequence of well-formed intervals.\<close>

theorem merge_non_overlap:
  "\<forall>i j. i < j \<and> j < length (merge_intervals_1d X) \<longrightarrow>
     snd (merge_intervals_1d X ! i) < fst (merge_intervals_1d X ! j)"
  using merge_intervals_1d_props[of X] by (auto simp: sorted_wrt_iff_nth_less)

theorem merge_non_overlap_witness:
  "(0::nat) < 1 \<and> 1 < length (merge_intervals_1d [(100, 180), (150, 220), (300, 330), (320, 350)]) \<and>
   snd (merge_intervals_1d [(100, 180), (150, 220), (300, 330), (320, 350)] ! 0)
     < fst (merge_intervals_1d [(100, 180), (150, 220), (300, 330), (320, 350)] ! 1)"
proof -
  have len: "1 < length (merge_intervals_1d [(100, 180), (150, 220), (300, 330), (320, 350)])"
    by (simp add: merge_intervals_1d_nonempty)
  with merge_non_overlap[of "[(100, 180), (150, 220), (300, 330), (320, 350)]"]
  have "snd (merge_intervals_1d [(100, 180), (150, 220), (300, 330), (320, 350)] ! 0)
     < fst (merge_intervals_1d [(100, 180), (150, 220), (300, 330), (320, 350)] ! 1)"
    by blast
  with len show ?thesis by simp
qed

text \<open>Claim C6. \<open>merge_1d\<close> is idempotent: merging the output of a merge again returns
  it unchanged, for every sequence of intervals.\<close>

theorem merge_idempotent:
  "merge_intervals_1d (merge_intervals_1d X) = merge_intervals_1d X"
  using merge_intervals_1d_props[of X] merge_intervals_1d_fixed by blast

section \<open>The two-pointer sweep on nested intervals\<close>

text \<open>Claim C1 asks that for start-sorted lists \<open>A\<close> and \<open>B\<close> every pair \<open>(i, j)\<close> with
  \<open>A[i]\<close> strictly overlapping \<open>B[j]\<close> appears in the output of \<open>find_overlaps\<close> exactly
  once, also in the chromosome-scoped variant. The sweep does not deliver this: with
  \<open>A = [(0, 10), (1, 3)]\<close> and \<open>B = [(2, 4)]\<close>, both sorted by start, \<open>A[1]\<close> overlaps
  \<open>B[0]\<close>, yet after reporting \<open>(0, 0)\<close> the sweep advances \<open>j\<close> (since \<open>10 > 4\<close>) and
  stops, so the pair \<open>(1, 0)\<close> is never tested. The same happens on one chromosome.\<close>

theorem find_overlaps_misses_nested_pair:
  "sorted (map fst [(0, 10), (1, 3) :: interval]) \<and> sorted (map fst [(2, 4) :: interval]) \<and>
   intervals_overlap ([(0, 10), (1, 3)] ! 1) ([(2, 4)] ! 0) \<and>
   find_overlaps_1d [(0, 10), (1, 3)] [(2, 4)] = [(0, 0)] \<and>
   find_overlaps_genomic [(''chr1'', 0, 10), (''chr1'', 1, 3)] [(''chr1'', 2, 4)] = [(0, 0)]"
proof -
  have "find_overlaps_1d [(0, 10), (1, 3)] [(2, 4)] = [(0, 0)]"
    by code_simp
  moreover have
    "find_overlaps_genomic [(''chr1'', 0, 10), (''chr1'', 1, 3)] [(''chr1'', 2, 4)] = [(0, 0)]"
    by code_simp
  moreover have "intervals_overlap ([(0, 10), (1, 3)] ! 1) ([(2, 4)] ! 0)"
    by (simp add: intervals_overlap_def)
  ultimately show ?thesis by simp
qed

section \<open>Effect of the merge on the caller's list\<close>

text \<open>Claim C2 asks that no engine operation changes a collection the caller passed in,
  in particular that \<open>merge_1d(intervals)\<close> leaves \<open>intervals\<close> unchanged. The merge sorts
  the list it receives in place: called on \<open>[(5, 6), (1, 2)]\<close>, the caller's list holds
  \<open>[(1, 2), (5, 6)]\<close> afterwards.\<close>

theorem merge_sorts_callers_list:
  "fst (merge_intervals_st [(5, 6), (1, 2)]) = [(1, 2), (5, 6)]"
  by (simp add: merge_intervals_st_def Let_def)

text \<open>In general the caller's list holds its former elements, stably sorted by start, after
  the call.\<close>

lemma merge_intervals_st_callers_list: "fst (merge_intervals_st intervals) = sort_key fst intervals"
  by (simp add: merge_intervals_st_def Let_def)

section \<open>Grouping into a dictionary of lists\<close>

text \<open>What a dictionary filled by repeated \<open>setdefault(k, []).append(v)\<close> holds: under
  a key, the values of the items with that key, in input order.\<close>

lemma map_of_setdefault_append:
  "map_of (setdefault_append k v d) k' =
     (if k' = k then Some (dd_get d k @ [v]) else map_of d k')"
  by (induction d) (auto simp: dd_get_def)

lemma keys_setdefault_append:
  "map fst (setdefault_append k v d) = (if k \<in> fst ` set d then map fst d else map fst d @ [k])"
proof (induction d)
  case Nil
  show ?case by simp
next
  case (Cons a d)
  obtain k' vs where a: "a = (k', vs)" by (cases a)
  show ?case using Cons.IH by (cases "k' = k") (auto simp: a)
qed

lemma distinct_setdefault_append:
  "distinct (map fst d) \<Longrightarrow> distinct (map fst (setdefault_append k v d))"
  by (simp add: keys_setdefault_append)

lemma set_keys_setdefault_append:
  "fst ` set (setdefault_append k v d) = insert k (fst ` set d)"
proof -
  have "set (map fst (setdefault_append k v d)) = insert k (set (map fst d))"
    unfolding keys_setdefault_append by auto
  then show ?thesis by simp
qed

lemma group_fold_lookup:
  "map_of (foldl (\<lambda>d x. setdefault_append (kf x) (vf x) d) d xs) k =
     (if k \<in> kf ` set xs then Some (dd_get d k @ map vf (filter (\<lambda>x. kf x = k) xs))
      else map_of d k)"
proof (induction xs arbitrary: d)
  case Nil
  show ?case by simp
next
  case (Cons x xs)
  show ?case
    unfolding foldl_Cons Cons.IH
    by (auto simp: map_of_setdefault_append dd_get_def filter_empty_conv image_iff)
qed

lemma group_fold_keys:
  "fst ` set (foldl (\<lambda>d x. setdefault_append (kf x) (vf x) d) d xs) = fst ` set d \<union> kf ` set xs"
proof (induction xs arbitrary: d)
  case Nil
  show ?case by simp
next
  case (Cons x xs)
  show ?case unfolding foldl_Cons Cons.IH by (simp add: set_keys_setdefault_append)
qed

lemma group_fold_distinct:
  "distinct (map fst d) \<Longrightarrow>
     distinct (map fst (foldl (\<lambda>d x. setdefault_append (kf x) (vf x) d) d xs))"
proof (induction xs arbitrary: d)
  case Nil
  then show ?case by simp
next
  case (Cons x xs)
  show ?case unfolding foldl_Cons
    by (rule Cons.IH) (rule distinct_setdefault_append[OF Cons.prems])
qed

lemma map_of_map_values:
  "map_of (map (\<lambda>(c, l). (c, g l)) d) k = map_option g (map_of d k)"
  by (induction d) auto

lemma keys_map_values: "map fst (map (\<lambda>(c, l). (c, g l)) d) = map fst d"
  by (induction d) auto

section \<open>The forward sweep of annotate_overlaps\<close>

text \<open>The pointer only passes features whose end is at or below the start of the current
  peak; the scan stops at the first feature that starts at or after the end of the peak.\<close>

lemma advance_ge: "j \<le> advance f_list pstart j"
proof (induction f_list pstart j rule: advance.induct)
  case (1 f_list pstart j)
  show ?case
  proof (cases "j < length f_list \<and> f_end (f_list ! j) \<le> pstart")
    case True
    with "1.IH" show ?thesis by (subst advance.simps) simp
  next
    case False
    then show ?thesis by (subst advance.simps) auto
  qed
qed

lemma advance_skipped:
  "j \<le> i \<Longrightarrow> i < advance f_list pstart j \<Longrightarrow> i < length f_list \<and> f_end (f_list ! i) \<le> pstart"
proof (induction f_list pstart j rule: advance.induct)
  case (1 f_list pstart j)
  show ?case
  proof (cases "j < length f_list \<and> f_end (f_list ! j) \<le> pstart")
    case True
    then have adv: "advance f_list pstart j = advance f_list pstart (j + 1)"
      by (subst advance.simps) simp
    show ?thesis
    proof (cases "i = j")
      case True
      with \<open>j < length f_list \<and> f_end (f_list ! j) \<le> pstart\<close> show ?thesis by simp
    next
      case False
      with "1.prems" have "j + 1 \<le> i" by simp
      from "1.IH"[OF True this] "1.prems"(2) adv show ?thesis by simp
    qed
  next
    case False
    then have "advance f_list pstart j = j" by (subst advance.simps) auto
    with "1.prems" show ?thesis by simp
  qed
qed

lemma scan_eq:
  "scan f_list pstart pend k cand =
     cand @ filter (\<lambda>f. intervals_overlap4 pstart pend (f_start f) (f_end f))
              (takeWhile (\<lambda>f. f_start f < pend) (drop k f_list))"
proof (induction f_list pstart pend k cand rule: scan.induct)
  case (1 f_list pstart pend k cand)
  show ?case
  proof (cases "k < length f_list \<and> f_start (f_list ! k) < pend")
    case True
    then have d: "drop k f_list = f_list ! k # drop (k + 1) f_list"
      by (simp add: Cons_nth_drop_Suc)
    show ?thesis
      by (subst scan.simps) (use True "1.IH"[OF True] d in auto)
  next
    case False
    show ?thesis
    proof (cases "k < length f_list")
      case True
      with False have d: "drop k f_list = f_list ! k # drop (k + 1) f_list" and
        "\<not> f_start (f_list ! k) < pend"
        by (simp_all add: Cons_nth_drop_Suc)
      then show ?thesis using False by (subst scan.simps) simp
    next
      case False
      then show ?thesis by (subst scan.simps) simp
    qed
  qed
qed

lemma sorted_dropWhile_ge:
  "sorted (map f xs) \<Longrightarrow> \<forall>x \<in> set (dropWhile (\<lambda>x. f x < c) xs). c \<le> (f x :: int)"
  by (induction xs) auto

lemma filter_takeWhile_sorted:
  assumes "sorted (map f_start fs)"
  shows "filter (\<lambda>f. intervals_overlap4 ps pe (f_start f) (f_end f))
           (takeWhile (\<lambda>f. f_start f < pe) fs)
         = filter (\<lambda>f. intervals_overlap4 ps pe (f_start f) (f_end f)) fs"
proof -
  let ?ov = "\<lambda>f. intervals_overlap4 ps pe (f_start f) (f_end f)"
  let ?P = "\<lambda>f. f_start f < pe"
  have "filter ?ov (dropWhile ?P fs) = []"
    using sorted_dropWhile_ge[OF assms, of pe]
    by (auto simp: filter_empty_conv intervals_overlap4_def)
  moreover have "filter ?ov fs = filter ?ov (takeWhile ?P fs) @ filter ?ov (dropWhile ?P fs)"
    by (metis filter_append takeWhile_dropWhile_id)
  ultimately show ?thesis by simp
qed

lemma scan_complete:
  assumes srt: "sorted (map f_start f_list)"
    and skipped: "\<forall>i < j. i < length f_list \<longrightarrow> f_end (f_list ! i) \<le> ps"
  shows "scan f_list ps pe j [] =
           filter (\<lambda>f. intervals_overlap4 ps pe (f_start f) (f_end f)) f_list"
proof -
  let ?ov = "\<lambda>f. intervals_overlap4 ps pe (f_start f) (f_end f)"
  have "sorted (map f_start (drop j f_list))" using srt by (simp add: sorted_wrt_drop drop_map[symmetric])
  then have 1: "scan f_list ps pe j [] = filter ?ov (drop j f_list)"
    by (simp add: scan_eq filter_takeWhile_sorted)
  have "\<forall>f \<in> set (take j f_list). f_end f \<le> ps"
    using skipped by (auto simp: in_set_conv_nth)
  then have 2: "filter ?ov (take j f_list) = []"
    by (auto simp: filter_empty_conv intervals_overlap4_def)
  have "filter ?ov f_list = filter ?ov (take j f_list) @ filter ?ov (drop j f_list)"
    by (metis filter_append append_take_drop_id)
  with 1 2 show ?thesis by simp
qed

text \<open>The loop over the peaks of one chromosome: an index that is not in the list keeps
  its entry, an index of the list gets exactly its overlapping features.\<close>

lemma peak_loop_other:
  "pidx \<notin> (\<lambda>p. snd (snd p)) ` set p_list \<Longrightarrow> peak_loop f_list p_list j hits pidx = hits pidx"
proof (induction p_list arbitrary: j hits)
  case Nil
  show ?case by simp
next
  case (Cons p p_list)
  obtain ps pe pi where p: "p = (ps, pe, pi)" by (cases p)
  from Cons.prems have ne: "pi \<noteq> pidx" and rest: "pidx \<notin> (\<lambda>p. snd (snd p)) ` set p_list"
    by (auto simp: p)
  show ?case unfolding p peak_loop.simps Let_def
    by (subst Cons.IH[OF rest]) (use ne in simp)
qed

lemma peak_loop_hit:
  assumes "sorted (map f_start f_list)"
    and "sorted (map fst p_list)"
    and "distinct (map (\<lambda>p. snd (snd p)) p_list)"
    and "\<forall>i < j. i < length f_list \<longrightarrow> (\<forall>p \<in> set p_list. f_end (f_list ! i) \<le> fst p)"
    and "(ps, pe, pidx) \<in> set p_list"
    and "hits pidx = None"
  shows "peak_loop f_list p_list j hits pidx =
           (let cand = filter (\<lambda>f. intervals_overlap4 ps pe (f_start f) (f_end f)) f_list
            in if cand \<noteq> [] then Some cand else None)"
  using assms(2-6)
proof (induction p_list arbitrary: j hits)
  case Nil
  then show ?case by simp
next
  case (Cons p p_list)
  obtain qs qe qi where p: "p = (qs, qe, qi)" by (cases p)
  let ?j' = "advance f_list qs j"
  have skipped: "\<forall>i < ?j'. i < length f_list \<longrightarrow> f_end (f_list ! i) \<le> qs"
  proof (intro allI impI)
    fix i assume "i < ?j'" "i < length f_list"
    show "f_end (f_list ! i) \<le> qs"
    proof (cases "i < j")
      case True
      with Cons.prems(3) \<open>i < length f_list\<close> show ?thesis by (auto simp: p)
    next
      case False
      then have "j \<le> i" by simp
      from advance_skipped[OF this \<open>i < ?j'\<close>] show ?thesis by simp
    qed
  qed
  have cand: "scan f_list qs qe ?j' [] =
      filter (\<lambda>f. intervals_overlap4 qs qe (f_start f) (f_end f)) f_list"
    by (rule scan_complete[OF assms(1) skipped])
  show ?case
  proof (cases "(ps, pe, pidx) = p")
    case True
    then have eq: "qs = ps" "qe = pe" "qi = pidx" by (simp_all add: p)
    from Cons.prems(2) have "pidx \<notin> (\<lambda>p. snd (snd p)) ` set p_list" by (simp add: p eq)
    then show ?thesis
      unfolding p peak_loop.simps Let_def cand
      by (subst peak_loop_other) (use Cons.prems(5) eq in auto)
  next
    case False
    with Cons.prems(4) have mem: "(ps, pe, pidx) \<in> set p_list" by simp
    with Cons.prems(2) have ne: "qi \<noteq> pidx" by (force simp: p)
    have srt: "sorted (map fst p_list)" using Cons.prems(1) by simp
    have dst: "distinct (map (\<lambda>p. snd (snd p)) p_list)" using Cons.prems(2) by simp
    have inv: "\<forall>i < ?j'. i < length f_list \<longrightarrow> (\<forall>q \<in> set p_list. f_end (f_list ! i) \<le> fst q)"
    proof (intro allI impI ballI)
      fix i q assume "i < ?j'" "i < length f_list" "q \<in> set p_list"
      with skipped have "f_end (f_list ! i) \<le> qs" by simp
      moreover have "qs \<le> fst q" using Cons.prems(1) \<open>q \<in> set p_list\<close> by (auto simp: p)
      ultimately show "f_end (f_list ! i) \<le> fst q" by simp
    qed
    let ?hits' = "(if scan f_list qs qe ?j' [] \<noteq> []
            then hits(qi \<mapsto> (case hits qi of None \<Rightarrow> [] | Some l \<Rightarrow> l) @ scan f_list qs qe ?j' [])
            else hits)"
    have "?hits' pidx = None" using ne Cons.prems(5) by simp
    from Cons.IH[of ?j' ?hits', OF srt dst inv mem this] show ?thesis
      unfolding p peak_loop.simps Let_def .
  qed
qed

text \<open>The peak groups: one entry per chromosome, holding the peaks of that chromosome
  with their input positions, sorted by start.\<close>

lemma group_by_chrom_peaks_alt:
  "group_by_chrom_peaks peaks =
     map (\<lambda>(c, l). (c, sort_key fst l))
       (foldl (\<lambda>d x. setdefault_append (fst (snd x)) (fst (snd (snd x)), snd (snd (snd x)), fst x) d)
          [] (enumerate 0 peaks))"
  by (simp add: group_by_chrom_peaks_def case_prod_unfold)

lemma group_by_chrom_peaks_distinct: "distinct (map fst (group_by_chrom_peaks peaks))"
  unfolding group_by_chrom_peaks_alt keys_map_values
  by (rule group_fold_distinct) simp

lemma group_by_chrom_peaks_lookup:
  "map_of (group_by_chrom_peaks peaks) c =
     (if c \<in> (\<lambda>x. fst (snd x)) ` set (enumerate 0 peaks)
      then Some (sort_key fst (map (\<lambda>x. (fst (snd (snd x)), snd (snd (snd x)), fst x))
                   (filter (\<lambda>x. fst (snd x) = c) (enumerate 0 peaks))))
      else None)"
  unfolding group_by_chrom_peaks_alt map_of_map_values group_fold_lookup
  by (simp add: dd_get_def)

lemma group_by_chrom_peaks_entry:
  assumes "(c, pl) \<in> set (group_by_chrom_peaks peaks)"
  shows "pl = sort_key fst (map (\<lambda>x. (fst (snd (snd x)), snd (snd (snd x)), fst x))
                   (filter (\<lambda>x. fst (snd x) = c) (enumerate 0 peaks)))"
proof -
  from assms have "map_of (group_by_chrom_peaks peaks) c = Some pl"
    using group_by_chrom_peaks_distinct by simp
  then show ?thesis unfolding group_by_chrom_peaks_lookup by (simp split: if_splits)
qed

lemma group_entry_set:
  assumes "(c, pl) \<in> set (group_by_chrom_peaks peaks)"
  shows "(s, e, i) \<in> set pl \<longleftrightarrow> i < length peaks \<and> peaks ! i = (c, s, e)"
  unfolding group_by_chrom_peaks_entry[OF assms]
  by (auto simp: in_set_enumerate_eq image_iff prod_eq_iff)

lemma group_entry_sorted:
  assumes "(c, pl) \<in> set (group_by_chrom_peaks peaks)"
  shows "sorted (map fst pl)"
  unfolding group_by_chrom_peaks_entry[OF assms] by (rule sorted_sort_key)

lemma distinct_map_sort_key: "distinct (map g (sort_key f ys)) = distinct (map g ys)"
  by (simp add: distinct_map)

lemma group_entry_distinct:
  assumes "(c, pl) \<in> set (group_by_chrom_peaks peaks)"
  shows "distinct (map (\<lambda>p. snd (snd p)) pl)"
proof -
  let ?xs = "filter (\<lambda>x. fst (snd x) = c) (enumerate 0 peaks)"
  let ?vs = "map (\<lambda>x. (fst (snd (snd x)), snd (snd (snd x)), fst x)) ?xs"
  have "map (\<lambda>p. snd (snd p)) ?vs = map fst ?xs" by simp
  moreover have "distinct (map fst ?xs)" by (rule distinct_map_filter) simp
  ultimately have "distinct (map (\<lambda>p. snd (snd p)) ?vs)" by (simp add: comp_def)
  then show ?thesis
    unfolding group_by_chrom_peaks_entry[OF assms] distinct_map_sort_key .
qed

lemma group_member:
  assumes "idx < length peaks" "peaks ! idx = (c, s, e)"
  shows "\<exists>pl. (c, pl) \<in> set (group_by_chrom_peaks peaks)"
proof -
  have "(idx, peaks ! idx) \<in> set (enumerate 0 peaks)" using assms(1) by (simp add: in_set_enumerate_eq)
  then have "c \<in> (\<lambda>x. fst (snd x)) ` set (enumerate 0 peaks)" using assms(2) by force
  then obtain pl where "map_of (group_by_chrom_peaks peaks) c = Some pl"
    unfolding group_by_chrom_peaks_lookup by simp
  then show ?thesis by (auto dest: map_of_SomeD)
qed

text \<open>The loop over the chromosomes.\<close>

lemma overlaps_fold_other:
  assumes "\<forall>(c, pl) \<in> set groups. idx \<notin> (\<lambda>p. snd (snd p)) ` set pl"
  shows "foldl (\<lambda>hits (chrom, p_list).
                  case fg chrom of None \<Rightarrow> hits
                  | Some f_list \<Rightarrow> peak_loop f_list p_list 0 hits) hits groups idx = hits idx"
  using assms
proof (induction groups arbitrary: hits)
  case Nil
  show ?case by simp
next
  case (Cons g groups)
  obtain c pl where g: "g = (c, pl)" by (cases g)
  from Cons.prems have 1: "idx \<notin> (\<lambda>p. snd (snd p)) ` set pl"
    and 2: "\<forall>(c, pl) \<in> set groups. idx \<notin> (\<lambda>p. snd (snd p)) ` set pl"
    by (auto simp: g)
  show ?case
    unfolding foldl_Cons g
    by (subst Cons.IH[OF 2]) (simp add: peak_loop_other[OF 1] split: option.splits)
qed

lemma overlaps_fold_split:
  assumes "\<forall>(c, pl) \<in> set g1. idx \<notin> (\<lambda>p. snd (snd p)) ` set pl"
    and "\<forall>(c, pl) \<in> set g2. idx \<notin> (\<lambda>p. snd (snd p)) ` set pl"
  shows "foldl (\<lambda>hits (chrom, p_list).
                  case fg chrom of None \<Rightarrow> hits
                  | Some f_list \<Rightarrow> peak_loop f_list p_list 0 hits) Map.empty (g1 @ (chrom, pl) # g2) idx
         = (case fg chrom of None \<Rightarrow> None
            | Some f_list \<Rightarrow>
                peak_loop f_list pl 0
                  (foldl (\<lambda>hits (chrom, p_list).
                            case fg chrom of None \<Rightarrow> hits
                            | Some f_list \<Rightarrow> peak_loop f_list p_list 0 hits) Map.empty g1) idx)"
  unfolding foldl_append foldl_Cons
  by (subst overlaps_fold_other[OF assms(2)])
     (simp add: overlaps_fold_other[OF assms(1)] split: option.splits)

lemma annotate_overlaps_lookup:
  assumes sorted_features: "\<forall>c l. feature_grouped c = Some l \<longrightarrow> sorted (map f_start l)"
    and idx: "idx < length peaks"
    and peak: "peaks ! idx = (chrom, pstart, pend)"
  shows "annotate_overlaps peaks feature_grouped idx =
           (case feature_grouped chrom of
              None \<Rightarrow> None
            | Some f_list \<Rightarrow>
                let cand = filter (\<lambda>f. pstart < f_end f \<and> f_start f < pend) f_list
                in if cand \<noteq> [] then Some cand else None)"
proof -
  let ?pg = "group_by_chrom_peaks peaks"
  let ?step = "\<lambda>hits (chrom, p_list).
                  case feature_grouped chrom of None \<Rightarrow> hits
                  | Some f_list \<Rightarrow> peak_loop f_list p_list 0 hits"
  from group_member[OF idx peak] obtain pl where mem: "(chrom, pl) \<in> set ?pg" by blast
  then obtain g1 g2 where split: "?pg = g1 @ (chrom, pl) # g2" by (auto dest: split_list)
  have dist: "distinct (map fst ?pg)" by (rule group_by_chrom_peaks_distinct)
  have other: "idx \<notin> (\<lambda>p. snd (snd p)) ` set pl'" if "(c', pl') \<in> set g1 \<union> set g2" for c' pl'
  proof
    assume "idx \<in> (\<lambda>p. snd (snd p)) ` set pl'"
    then obtain s e where "(s, e, idx) \<in> set pl'" by force
    moreover have "(c', pl') \<in> set ?pg" using that split by auto
    ultimately have "peaks ! idx = (c', s, e)" using group_entry_set by blast
    with peak have "c' = chrom" by simp
    moreover have "chrom \<notin> fst ` (set g1 \<union> set g2)" using dist unfolding split by auto
    moreover have "c' \<in> fst ` (set g1 \<union> set g2)" using that by (metis fst_conv imageI)
    ultimately show False by simp
  qed
  have o1: "\<forall>(c, pl) \<in> set g1. idx \<notin> (\<lambda>p. snd (snd p)) ` set pl" using other by blast
  have o2: "\<forall>(c, pl) \<in> set g2. idx \<notin> (\<lambda>p. snd (snd p)) ` set pl" using other by blast
  have inpl: "(pstart, pend, idx) \<in> set pl" using group_entry_set[OF mem] idx peak by simp
  have none: "foldl ?step Map.empty g1 idx = None"
    using overlaps_fold_other[OF o1, of feature_grouped Map.empty] by simp
  show ?thesis
  proof (cases "feature_grouped chrom")
    case None
    then show ?thesis
      unfolding annotate_overlaps_def Let_def split overlaps_fold_split[OF o1 o2] by simp
  next
    case (Some f_list)
    with sorted_features have srt: "sorted (map f_start f_list)" by blast
    have "peak_loop f_list pl 0 (foldl ?step Map.empty g1) idx =
           (let cand = filter (\<lambda>f. intervals_overlap4 pstart pend (f_start f) (f_end f)) f_list
            in if cand \<noteq> [] then Some cand else None)"
    proof (rule peak_loop_hit[where j = 0 and hits = "foldl ?step Map.empty g1"])
      show "sorted (map f_start f_list)" by (rule srt)
      show "sorted (map fst pl)" by (rule group_entry_sorted[OF mem])
      show "distinct (map (\<lambda>p. snd (snd p)) pl)" by (rule group_entry_distinct[OF mem])
      show "\<forall>i<0. i < length f_list \<longrightarrow> (\<forall>p\<in>set pl. f_end (f_list ! i) \<le> fst p)" by simp
      show "(pstart, pend, idx) \<in> set pl" by (rule inpl)
      show "foldl ?step Map.empty g1 idx = None" by (rule none)
    qed
    then show ?thesis
      unfolding annotate_overlaps_def Let_def split overlaps_fold_split[OF o1 o2]
      by (simp add: Some intervals_overlap4_def)
  qed
qed

lemma annotate_overlaps_out_of_range:
  assumes "length peaks \<le> idx"
  shows "annotate_overlaps peaks feature_grouped idx = None"
proof -
  have "\<forall>(c, pl) \<in> set (group_by_chrom_peaks peaks). idx \<notin> (\<lambda>p. snd (snd p)) ` set pl"
    using group_entry_set assms by fastforce
  from overlaps_fold_other[OF this, of feature_grouped Map.empty]
  show ?thesis unfolding annotate_overlaps_def Let_def by simp
qed

section \<open>Feature groups and the TSS index\<close>

lemma group_by_chrom_intervals_lookup:
  "map_of (group_by_chrom_intervals feats) c =
     (if c \<in> f_chrom ` set feats
      then Some (sort_key f_start (filter (\<lambda>f. f_chrom f = c) feats))
      else None)"
proof -
  have "map_of (group_by_chrom_intervals feats) c =
      map_option (sort_key f_start)
        (map_of (foldl (\<lambda>d x. setdefault_append (f_chrom x) (id x) d) [] feats) c)"
    unfolding group_by_chrom_intervals_def map_of_map_values by simp
  also have "\<dots> = (if c \<in> f_chrom ` set feats
      then Some (sort_key f_start (filter (\<lambda>f. f_chrom f = c) feats))
      else None)"
    unfolding group_fold_lookup by (simp add: dd_get_def)
  finally show ?thesis .
qed

lemma group_by_chrom_intervals_sorted:
  "\<forall>c l. map_of (group_by_chrom_intervals feats) c = Some l \<longrightarrow> sorted (map f_start l)"
  unfolding group_by_chrom_intervals_lookup by (auto split: if_splits)

lemma build_tss_index_lookup:
  "map_of (build_tss_index genes) c =
     (if c \<in> g_chrom ` set genes
      then (let arr = sort_key fst (map (\<lambda>g. (g_tss g, g_gene_name g))
                                      (filter (\<lambda>g. g_chrom g = c) genes))
            in Some (map fst arr, map snd arr))
      else None)"
proof -
  have "map_of (build_tss_index genes) c =
      map_option (\<lambda>arr. (map fst (sort_key fst arr), map snd (sort_key fst arr)))
        (map_of (foldl (\<lambda>d x. setdefault_append (g_chrom x) (g_tss x, g_gene_name x) d) [] genes) c)"
    unfolding build_tss_index_def Let_def map_of_map_values by simp
  also have "\<dots> = (if c \<in> g_chrom ` set genes
      then (let arr = sort_key fst (map (\<lambda>g. (g_tss g, g_gene_name g))
                                      (filter (\<lambda>g. g_chrom g = c) genes))
            in Some (map fst arr, map snd arr))
      else None)"
    unfolding group_fold_lookup by (simp add: dd_get_def Let_def)
  finally show ?thesis .
qed

lemma annotate_loop_total:
  assumes "\<forall>(i, p) \<in> set xs. annotate_row ph gh ti i p \<noteq> None"
  shows "annotate_loop ph gh ti xs out =
           Some (out @ map (\<lambda>(i, p). the (annotate_row ph gh ti i p)) xs)"
  using assms
proof (induction xs arbitrary: out)
  case Nil
  show ?case by simp
next
  case (Cons x xs)
  obtain i p where x: "x = (i, p)" by (cases x)
  from Cons.prems obtain row where row: "annotate_row ph gh ti i p = Some row" by (auto simp: x)
  from Cons.prems have "\<forall>(i, p) \<in> set xs. annotate_row ph gh ti i p \<noteq> None" by simp
  from Cons.IH[OF this] show ?case by (simp add: x row)
qed

section \<open>Binary search and the nearest TSS\<close>

text \<open>On a sorted list \<open>bisect_left\<close> returns the insertion point: everything before it
  is below \<open>x\<close>, everything from it on is at least \<open>x\<close>.\<close>

lemma bisect_loop_correct:
  "sorted a \<Longrightarrow> lo \<le> hi \<Longrightarrow> hi \<le> length a \<Longrightarrow> (\<forall>i<lo. a ! i < x) \<Longrightarrow>
         (\<forall>i. hi \<le> i \<and> i < length a \<longrightarrow> x \<le> a ! i) \<Longrightarrow>
         bisect_loop a x lo hi \<le> length a \<and>
         (\<forall>i < bisect_loop a x lo hi. a ! i < x) \<and>
         (\<forall>i. bisect_loop a x lo hi \<le> i \<and> i < length a \<longrightarrow> x \<le> a ! i)"
proof (induction a x lo hi rule: bisect_loop.induct)
  case (1 a x lo hi)
  note srt = "1.prems"(1) and lohi = "1.prems"(2) and hilen = "1.prems"(3)
    and left = "1.prems"(4) and right = "1.prems"(5)
  show ?case
  proof (cases "lo < hi")
    case False
    with lohi have "lo = hi" by simp
    then have "bisect_loop a x lo hi = lo" by (subst bisect_loop.simps) simp
    with hilen left right \<open>lo = hi\<close> show ?thesis by simp
  next
    case True
    let ?mid = "(lo + hi) div 2"
    have mid: "lo \<le> ?mid" "?mid < hi" using True by simp_all
    show ?thesis
    proof (cases "a ! ?mid < x")
      case lt: True
      have eq: "bisect_loop a x lo hi = bisect_loop a x (?mid + 1) hi"
        by (subst bisect_loop.simps) (use True lt in \<open>simp add: Let_def\<close>)
      have left': "\<forall>i < ?mid + 1. a ! i < x"
      proof (intro allI impI)
        fix i assume "i < ?mid + 1"
        then have "a ! i \<le> a ! ?mid"
          using mid hilen srt by (auto intro: sorted_nth_mono)
        with lt show "a ! i < x" by simp
      qed
      have "?mid + 1 \<le> hi" using mid by simp
      from "1.IH"(1)[OF True refl lt srt this hilen left' right]
      show ?thesis unfolding eq .
    next
      case ge: False
      have eq: "bisect_loop a x lo hi = bisect_loop a x lo ?mid"
        by (subst bisect_loop.simps) (use True ge in \<open>simp add: Let_def\<close>)
      have right': "\<forall>i. ?mid \<le> i \<and> i < length a \<longrightarrow> x \<le> a ! i"
      proof (intro allI impI)
        fix i assume "?mid \<le> i \<and> i < length a"
        then have "a ! ?mid \<le> a ! i"
          using srt by (auto intro: sorted_nth_mono)
        with ge show "x \<le> a ! i" by simp
      qed
      have "?mid \<le> length a" using mid hilen by simp
      from "1.IH"(2)[OF True refl ge srt mid(1) this left right']
      show ?thesis unfolding eq .
    qed
  qed
qed

lemma bisect_left_correct:
  assumes "sorted a"
  shows "bisect_left a x \<le> length a"
    and "\<forall>i < bisect_left a x. a ! i < x"
    and "\<forall>i. bisect_left a x \<le> i \<and> i < length a \<longrightarrow> x \<le> a ! i"
  using bisect_loop_correct[OF assms, of 0 "length a" x]
  by (simp_all add: bisect_left_def)

text \<open>\<open>nearest_tss\<close> on a sorted, non-empty list with aligned names: when some TSS is
  closer than the initial \<open>best_dist = 10**18\<close>, the result is a closest TSS, the smaller
  coordinate on a tie; otherwise nothing is selected.\<close>

lemma nearest_tss_unfold:
  "a \<noteq> [] \<Longrightarrow> nearest_tss a names pos =
     (case nearest_step a pos (nearest_step a pos (None, 10 ^ 18, 0) (int (bisect_left a pos) - 1))
             (int (bisect_left a pos)) of
        (None, best_dist, best_signed) \<Rightarrow> Some ('''', 0)
      | (Some best_idx, best_dist, best_signed) \<Rightarrow>
          if nat best_idx < length names
          then Some (names ! nat best_idx, best_signed) else None)"
  by (simp add: nearest_tss_def Let_def)

lemma nearest_tss_min:
  assumes srt: "sorted a" and ne: "a \<noteq> []" and len: "length names = length a"
  shows "if \<exists>t \<in> set a. \<bar>pos - t\<bar> < 10 ^ 18
         then \<exists>b < length a. nearest_tss a names pos = Some (names ! b, pos - a ! b) \<and>
                (\<forall>t \<in> set a. \<bar>pos - a ! b\<bar> \<le> \<bar>pos - t\<bar>) \<and>
                (\<forall>t \<in> set a. \<bar>pos - t\<bar> = \<bar>pos - a ! b\<bar> \<longrightarrow> a ! b \<le> t)
         else nearest_tss a names pos = Some ('''', 0)"
proof -
  define k where "k = bisect_left a pos"
  note bl = bisect_left_correct[OF srt, of pos, folded k_def]
  have klen: "k \<le> length a" by (rule bl(1))
  have left: "a ! i < pos" if "i < k" for i using bl(2) that by blast
  have right: "pos \<le> a ! i" if "k \<le> i" "i < length a" for i using bl(3) that by blast
  have mono: "a ! i \<le> a ! j" if "i \<le> j" "j < length a" for i j
    using srt that by (auto intro: sorted_nth_mono)
  let ?S = "10 ^ 18 :: int"
  consider (A) "k = 0" | (B) "k = length a" "0 < k" | (C) "0 < k" "k < length a"
    using klen by linarith
  then show ?thesis
  proof cases
    case A
    have k0: "0 < length a" using ne by simp
    have all: "pos \<le> a ! 0 \<and> a ! 0 \<le> t" if "t \<in> set a" for t
    proof -
      from that obtain i where "i < length a" "t = a ! i" by (auto simp: in_set_conv_nth)
      then show ?thesis using right[of 0] mono[of 0 i] A k0 by simp
    qed
    have res: "nearest_tss a names pos =
        (if a ! 0 - pos < ?S then Some (names ! 0, pos - a ! 0) else Some ('''', 0))"
      using right[of 0] k0 len
      by (simp add: nearest_tss_unfold[OF ne] k_def[symmetric] A nearest_step_def Let_def)
    show ?thesis
    proof (cases "a ! 0 - pos < ?S")
      case True
      have "\<exists>t \<in> set a. \<bar>pos - t\<bar> < ?S"
        using True right[of 0] k0 A by (intro bexI[of _ "a ! 0"]) auto
      moreover have "\<forall>t \<in> set a. \<bar>pos - a ! 0\<bar> \<le> \<bar>pos - t\<bar>" using all by fastforce
      moreover have "\<forall>t \<in> set a. \<bar>pos - t\<bar> = \<bar>pos - a ! 0\<bar> \<longrightarrow> a ! 0 \<le> t" using all by simp
      ultimately show ?thesis using res True k0 by auto
    next
      case False
      have "\<not> (\<exists>t \<in> set a. \<bar>pos - t\<bar> < ?S)" using all False by fastforce
      then show ?thesis using res False by simp
    qed
  next
    case B
    let ?b = "k - 1"
    have b: "?b < length a" "?b < k" using B by simp_all
    have all: "t \<le> a ! ?b \<and> a ! ?b < pos" if "t \<in> set a" for t
    proof -
      from that obtain i where "i < length a" "t = a ! i" by (auto simp: in_set_conv_nth)
      then show ?thesis using left[of ?b] mono[of i ?b] B by simp
    qed
    have res: "nearest_tss a names pos =
        (if pos - a ! ?b < ?S then Some (names ! ?b, pos - a ! ?b) else Some ('''', 0))"
      using left[of ?b] b len B
      by (simp add: nearest_tss_unfold[OF ne] k_def[symmetric] nearest_step_def Let_def
            nat_diff_distrib' of_nat_diff)
    show ?thesis
    proof (cases "pos - a ! ?b < ?S")
      case True
      have "\<exists>t \<in> set a. \<bar>pos - t\<bar> < ?S"
        using True left[of ?b] b by (intro bexI[of _ "a ! ?b"]) auto
      moreover have "\<forall>t \<in> set a. \<bar>pos - a ! ?b\<bar> \<le> \<bar>pos - t\<bar>" using all by fastforce
      moreover have "\<forall>t \<in> set a. \<bar>pos - t\<bar> = \<bar>pos - a ! ?b\<bar> \<longrightarrow> a ! ?b \<le> t"
        using all by fastforce
      ultimately show ?thesis using res True b by auto
    next
      case False
      have "\<not> (\<exists>t \<in> set a. \<bar>pos - t\<bar> < ?S)" using all False by fastforce
      then show ?thesis using res False by simp
    qed
  next
    case C
    let ?b = "k - 1"
    have b: "?b < length a" "?b < k" using C by simp_all
    have lt: "a ! ?b < pos" using left[of ?b] b by simp
    have ge: "pos \<le> a ! k" using right[of k] C by simp
    have all: "(t \<le> a ! ?b) \<or> (a ! k \<le> t)" if "t \<in> set a" for t
    proof -
      from that obtain i where i: "i < length a" "t = a ! i" by (auto simp: in_set_conv_nth)
      show ?thesis
      proof (cases "i < k")
        case True
        then show ?thesis using mono[of i ?b] i b by simp
      next
        case False
        then show ?thesis using mono[of k i] i by simp
      qed
    qed
    have res: "nearest_tss a names pos =
        (if pos - a ! ?b < ?S
         then (if a ! k - pos < pos - a ! ?b then Some (names ! k, pos - a ! k)
               else Some (names ! ?b, pos - a ! ?b))
         else (if a ! k - pos < ?S then Some (names ! k, pos - a ! k) else Some ('''', 0)))"
      using lt ge b len C
      by (simp add: nearest_tss_unfold[OF ne] k_def[symmetric] nearest_step_def Let_def
            nat_diff_distrib' of_nat_diff)
    show ?thesis
    proof (cases "a ! k - pos < pos - a ! ?b \<and> a ! k - pos < ?S")
      case True
      then have r: "nearest_tss a names pos = Some (names ! k, pos - a ! k)"
        using res by auto
      have "\<exists>t \<in> set a. \<bar>pos - t\<bar> < ?S"
        using True ge C by (intro bexI[of _ "a ! k"]) auto
      moreover have "\<forall>t \<in> set a. \<bar>pos - a ! k\<bar> \<le> \<bar>pos - t\<bar>"
        using all True ge lt by fastforce
      moreover have "\<forall>t \<in> set a. \<bar>pos - t\<bar> = \<bar>pos - a ! k\<bar> \<longrightarrow> a ! k \<le> t"
        using all True ge lt by fastforce
      ultimately show ?thesis using r C by auto
    next
      case False
      show ?thesis
      proof (cases "pos - a ! ?b < ?S")
        case True
        with False have r: "nearest_tss a names pos = Some (names ! ?b, pos - a ! ?b)"
          using res by auto
        have "\<exists>t \<in> set a. \<bar>pos - t\<bar> < ?S"
          using True lt b by (intro bexI[of _ "a ! ?b"]) auto
        moreover have "\<forall>t \<in> set a. \<bar>pos - a ! ?b\<bar> \<le> \<bar>pos - t\<bar>"
          using all True False ge lt by fastforce
        moreover have "\<forall>t \<in> set a. \<bar>pos - t\<bar> = \<bar>pos - a ! ?b\<bar> \<longrightarrow> a ! ?b \<le> t"
          using all True False ge lt by fastforce
        ultimately show ?thesis using r b by auto
      next
        case F2: False
        with False have r: "nearest_tss a names pos = Some ('''', 0)"
          using res by auto
        have "\<not> (\<exists>t \<in> set a. \<bar>pos - t\<bar> < ?S)" using all False F2 ge lt by fastforce
        then show ?thesis using r by simp
      qed
    qed
  qed
qed

section \<open>The rows of annotate_peaks\<close>

lemma tss_index_entry:
  assumes "map_of (build_tss_index genes) c = Some (ts, ns)"
  shows "sorted ts \<and> ts \<noteq> [] \<and> length ns = length ts"
proof -
  let ?arr = "sort_key fst (map (\<lambda>g. (g_tss g, g_gene_name g)) (filter (\<lambda>g. g_chrom g = c) genes))"
  from assms have c: "c \<in> g_chrom ` set genes" and ts: "ts = map fst ?arr" and ns: "ns = map snd ?arr"
    unfolding build_tss_index_lookup by (auto simp: Let_def split: if_splits)
  from c have "filter (\<lambda>g. g_chrom g = c) genes \<noteq> []" by (auto simp: filter_empty_conv)
  then have "length ?arr \<noteq> 0" by simp
  then have "ts \<noteq> []" unfolding ts by (metis length_map length_0_conv)
  moreover have "sorted ts" unfolding ts by (rule sorted_sort_key)
  moreover have "length ns = length ts" unfolding ts ns by simp
  ultimately show ?thesis by simp
qed

lemma nearest_tss_total:
  assumes "sorted a" "a \<noteq> []" "length names = length a"
  shows "\<exists>r. nearest_tss a names pos = Some r"
  using nearest_tss_min[OF assms, of pos] by (auto split: if_splits)

lemma annotate_row_total:
  "\<exists>row. annotate_row ph gh (build_tss_index genes) idx peak = Some row"
proof -
  obtain chrom s e where peak: "peak = (chrom, s, e)" by (cases peak)
  show ?thesis
  proof (cases "map_of (build_tss_index genes) chrom")
    case None
    then show ?thesis by (simp add: annotate_row_def peak Let_def split: option.splits)
  next
    case (Some tn)
    obtain ts ns where tn: "tn = (ts, ns)" by (cases tn)
    from tss_index_entry[OF Some[unfolded tn]]
    have "\<exists>r. nearest_tss ts ns ((s + e) div 2) = Some r" by (intro nearest_tss_total) simp_all
    then show ?thesis
      by (auto simp: annotate_row_def peak Let_def Some tn split: option.splits)
  qed
qed

lemma annotate_peaks_rows:
  "\<exists>out. annotate_peaks peaks genes up down = Some out \<and> length out = length peaks \<and>
     (\<forall>idx < length peaks.
        annotate_row
          (annotate_overlaps peaks (map_of (group_by_chrom_intervals (build_promoters genes up down))))
          (annotate_overlaps peaks (map_of (group_by_chrom_intervals (map gene_body genes))))
          (build_tss_index genes) idx (peaks ! idx) = Some (out ! idx))"
proof -
  let ?ph = "annotate_overlaps peaks (map_of (group_by_chrom_intervals (build_promoters genes up down)))"
  let ?gh = "annotate_overlaps peaks (map_of (group_by_chrom_intervals (map gene_body genes)))"
  let ?ti = "build_tss_index genes"
  let ?out = "map (\<lambda>(i, p). the (annotate_row ?ph ?gh ?ti i p)) (enumerate 0 peaks)"
  have "\<forall>(i, p) \<in> set (enumerate 0 peaks). annotate_row ?ph ?gh ?ti i p \<noteq> None"
    using annotate_row_total by fastforce
  from annotate_loop_total[OF this, of "[]"]
  have 1: "annotate_peaks peaks genes up down = Some ?out"
    by (simp add: annotate_peaks_def Let_def)
  have 2: "length ?out = length peaks" by simp
  have 3: "annotate_row ?ph ?gh ?ti idx (peaks ! idx) = Some (?out ! idx)" if "idx < length peaks" for idx
  proof -
    from annotate_row_total obtain row where "annotate_row ?ph ?gh ?ti idx (peaks ! idx) = Some row"
      by blast
    then show ?thesis using that by (simp add: nth_enumerate_eq)
  qed
  from 1 2 3 show ?thesis by blast
qed

lemma feature_hits_lookup:
  assumes idx: "idx < length peaks" and peak: "peaks ! idx = (chrom, s, e)"
  shows "annotate_overlaps peaks (map_of (group_by_chrom_intervals feats)) idx =
           (let cand = filter (\<lambda>f. s < f_end f \<and> f_start f < e)
                         (sort_key f_start (filter (\<lambda>f. f_chrom f = chrom) feats))
            in if cand \<noteq> [] then Some cand else None)"
proof (cases "chrom \<in> f_chrom ` set feats")
  case True
  show ?thesis
    unfolding annotate_overlaps_lookup[OF group_by_chrom_intervals_sorted idx peak]
      group_by_chrom_intervals_lookup
    using True by simp
next
  case False
  then have "filter (\<lambda>f. f_chrom f = chrom) feats = []" by (auto simp: filter_empty_conv)
  then show ?thesis
    unfolding annotate_overlaps_lookup[OF group_by_chrom_intervals_sorted idx peak]
      group_by_chrom_intervals_lookup
    using False by simp
qed

lemma feature_hits_nonempty:
  "filter (\<lambda>f. s < f_end f \<and> f_start f < e)
      (sort_key f_start (filter (\<lambda>f. f_chrom f = chrom) feats)) \<noteq> [] \<longleftrightarrow>
   (\<exists>f \<in> set feats. f_chrom f = chrom \<and> s < f_end f \<and> f_start f < e)"
  by (auto simp: filter_empty_conv)

lemma annotate_row_annotation:
  assumes "annotate_row ph gh ti idx (chrom, s, e) = Some row"
  shows "row_annotation row =
           (if ph idx \<noteq> None then ''promoter''
            else if gh idx \<noteq> None then ''gene_body'' else ''intergenic'')"
  using assms
  by (auto simp: annotate_row_def Let_def split: option.splits prod.splits)

lemma annotate_row_assigned:
  assumes "annotate_row ph gh ti idx (chrom, s, e) = Some row"
  shows "(row_gene row, row_distance_to_TSS row) =
           (case ph idx of
              Some cands \<Rightarrow> assign_best_gene_by_tss_distance ((s + e) div 2) cands
            | None \<Rightarrow>
               (case gh idx of
                  Some cands \<Rightarrow> assign_best_gene_by_tss_distance ((s + e) div 2) cands
                | None \<Rightarrow>
                   (case map_of ti chrom of
                      Some (ts, ns) \<Rightarrow> the (nearest_tss ts ns ((s + e) div 2))
                    | None \<Rightarrow> ('''', 0))))"
  using assms
  by (auto simp: annotate_row_def Let_def split: option.splits prod.splits)

section \<open>The closest candidate\<close>

text \<open>The loop of \<open>assign_best_gene_by_tss_distance\<close> either keeps its initial state,
  when no candidate is closer than \<open>best_dist\<close>, or ends on the first candidate of
  minimal distance.\<close>

lemma assign_loop_char:
  "(\<forall>c \<in> set cs. \<not> \<bar>center - f_tss c\<bar> < bd) \<and> assign_loop center cs (bg, bd, bs) = (bg, bd, bs)
   \<or> (\<exists>k < length cs.
         assign_loop center cs (bg, bd, bs) =
           (f_gene_name (cs ! k), \<bar>center - f_tss (cs ! k)\<bar>, center - f_tss (cs ! k)) \<and>
         \<bar>center - f_tss (cs ! k)\<bar> < bd \<and>
         (\<forall>m < length cs. \<bar>center - f_tss (cs ! k)\<bar> \<le> \<bar>center - f_tss (cs ! m)\<bar>) \<and>
         (\<forall>m < k. \<bar>center - f_tss (cs ! k)\<bar> < \<bar>center - f_tss (cs ! m)\<bar>))"
proof (induction cs arbitrary: bg bd bs)
  case Nil
  show ?case by simp
next
  case (Cons c cs)
  let ?d = "\<bar>center - f_tss c\<bar>"
  show ?case
  proof (cases "?d < bd")
    case True
    then have step: "assign_loop center (c # cs) (bg, bd, bs) =
        assign_loop center cs (f_gene_name c, ?d, center - f_tss c)"
      by (simp add: Let_def)
    from Cons.IH[of ?d "f_gene_name c" "center - f_tss c"]
    show ?thesis
    proof (elim disjE conjE exE)
      assume none: "\<forall>c' \<in> set cs. \<not> \<bar>center - f_tss c'\<bar> < ?d"
        and res: "assign_loop center cs (f_gene_name c, ?d, center - f_tss c) =
                    (f_gene_name c, ?d, center - f_tss c)"
      have "\<forall>m < length (c # cs). ?d \<le> \<bar>center - f_tss ((c # cs) ! m)\<bar>"
      proof (intro allI impI)
        fix m assume "m < length (c # cs)"
        then show "?d \<le> \<bar>center - f_tss ((c # cs) ! m)\<bar>"
          using none by (cases m) (auto simp: not_less)
      qed
      then show ?thesis
        using True res step by (intro disjI2 exI[of _ 0]) simp
    next
      fix k assume k: "k < length cs"
        and res: "assign_loop center cs (f_gene_name c, ?d, center - f_tss c) =
           (f_gene_name (cs ! k), \<bar>center - f_tss (cs ! k)\<bar>, center - f_tss (cs ! k))"
        and lt: "\<bar>center - f_tss (cs ! k)\<bar> < ?d"
        and mn: "\<forall>m < length cs. \<bar>center - f_tss (cs ! k)\<bar> \<le> \<bar>center - f_tss (cs ! m)\<bar>"
        and first: "\<forall>m < k. \<bar>center - f_tss (cs ! k)\<bar> < \<bar>center - f_tss (cs ! m)\<bar>"
      have 1: "\<forall>m < length (c # cs).
          \<bar>center - f_tss ((c # cs) ! Suc k)\<bar> \<le> \<bar>center - f_tss ((c # cs) ! m)\<bar>"
      proof (intro allI impI)
        fix m assume "m < length (c # cs)"
        then show "\<bar>center - f_tss ((c # cs) ! Suc k)\<bar> \<le> \<bar>center - f_tss ((c # cs) ! m)\<bar>"
          using mn lt by (cases m) auto
      qed
      have 2: "\<forall>m < Suc k.
          \<bar>center - f_tss ((c # cs) ! Suc k)\<bar> < \<bar>center - f_tss ((c # cs) ! m)\<bar>"
      proof (intro allI impI)
        fix m assume "m < Suc k"
        then show "\<bar>center - f_tss ((c # cs) ! Suc k)\<bar> < \<bar>center - f_tss ((c # cs) ! m)\<bar>"
          using first lt by (cases m) auto
      qed
      show ?thesis
        using k res lt True 1 2 step by (intro disjI2 exI[of _ "Suc k"]) simp
    qed
  next
    case False
    then have step: "assign_loop center (c # cs) (bg, bd, bs) = assign_loop center cs (bg, bd, bs)"
      by (simp add: Let_def)
    from Cons.IH[of bd bg bs]
    show ?thesis
    proof (elim disjE conjE exE)
      assume "\<forall>c' \<in> set cs. \<not> \<bar>center - f_tss c'\<bar> < bd"
        and "assign_loop center cs (bg, bd, bs) = (bg, bd, bs)"
      then show ?thesis using False step by simp
    next
      fix k assume k: "k < length cs"
        and res: "assign_loop center cs (bg, bd, bs) =
           (f_gene_name (cs ! k), \<bar>center - f_tss (cs ! k)\<bar>, center - f_tss (cs ! k))"
        and lt: "\<bar>center - f_tss (cs ! k)\<bar> < bd"
        and mn: "\<forall>m < length cs. \<bar>center - f_tss (cs ! k)\<bar> \<le> \<bar>center - f_tss (cs ! m)\<bar>"
        and first: "\<forall>m < k. \<bar>center - f_tss (cs ! k)\<bar> < \<bar>center - f_tss (cs ! m)\<bar>"
      have 1: "\<forall>m < length (c # cs).
          \<bar>center - f_tss ((c # cs) ! Suc k)\<bar> \<le> \<bar>center - f_tss ((c # cs) ! m)\<bar>"
      proof (intro allI impI)
        fix m assume "m < length (c # cs)"
        then show "\<bar>center - f_tss ((c # cs) ! Suc k)\<bar> \<le> \<bar>center - f_tss ((c # cs) ! m)\<bar>"
          using mn lt False by (cases m) auto
      qed
      have 2: "\<forall>m < Suc k.
          \<bar>center - f_tss ((c # cs) ! Suc k)\<bar> < \<bar>center - f_tss ((c # cs) ! m)\<bar>"
      proof (intro allI impI)
        fix m assume "m < Suc k"
        then show "\<bar>center - f_tss ((c # cs) ! Suc k)\<bar> < \<bar>center - f_tss ((c # cs) ! m)\<bar>"
          using first lt False by (cases m) auto
      qed
      show ?thesis
        using k res lt 1 2 step by (intro disjI2 exI[of _ "Suc k"]) simp
    qed
  qed
qed

lemma assign_best_char:
  "if \<exists>c \<in> set cs. \<bar>center - f_tss c\<bar> < 10 ^ 18
   then \<exists>k < length cs.
          assign_best_gene_by_tss_distance center cs =
            (f_gene_name (cs ! k), center - f_tss (cs ! k)) \<and>
          (\<forall>m < length cs. \<bar>center - f_tss (cs ! k)\<bar> \<le> \<bar>center - f_tss (cs ! m)\<bar>) \<and>
          (\<forall>m < k. \<bar>center - f_tss (cs ! k)\<bar> < \<bar>center - f_tss (cs ! m)\<bar>)
   else assign_best_gene_by_tss_distance center cs = ('''', 0)"
proof (cases "\<exists>c \<in> set cs. \<bar>center - f_tss c\<bar> < 10 ^ 18")
  case True
  with assign_loop_char[of cs center "10 ^ 18" "[]" 0]
  obtain k where "k < length cs"
    "assign_loop center cs ([], 10 ^ 18, 0) =
       (f_gene_name (cs ! k), \<bar>center - f_tss (cs ! k)\<bar>, center - f_tss (cs ! k))"
    "\<forall>m < length cs. \<bar>center - f_tss (cs ! k)\<bar> \<le> \<bar>center - f_tss (cs ! m)\<bar>"
    "\<forall>m < k. \<bar>center - f_tss (cs ! k)\<bar> < \<bar>center - f_tss (cs ! m)\<bar>"
    by blast
  then have "\<exists>k < length cs.
          assign_best_gene_by_tss_distance center cs =
            (f_gene_name (cs ! k), center - f_tss (cs ! k)) \<and>
          (\<forall>m < length cs. \<bar>center - f_tss (cs ! k)\<bar> \<le> \<bar>center - f_tss (cs ! m)\<bar>) \<and>
          (\<forall>m < k. \<bar>center - f_tss (cs ! k)\<bar> < \<bar>center - f_tss (cs ! m)\<bar>)"
    unfolding assign_best_gene_by_tss_distance_def by (intro exI[of _ k]) simp
  with True show ?thesis by simp
next
  case False
  have "\<not> (\<exists>k < length cs. \<bar>center - f_tss (cs ! k)\<bar> < 10 ^ 18)"
    using False by (metis nth_mem)
  with assign_loop_char[of cs center "10 ^ 18" "[]" 0]
  have "assign_loop center cs ([], 10 ^ 18, 0) = ([], 10 ^ 18, 0)" by blast
  then have "assign_best_gene_by_tss_distance center cs = ([], 0)"
    unfolding assign_best_gene_by_tss_distance_def by simp
  with False show ?thesis by simp
qed

section \<open>Overlap detection of the annotator\<close>

text \<open>Claim C10. For every list of peaks and every chromosome-grouped feature dictionary
  whose lists are sorted by start, \<open>annotate_overlaps\<close> assigns to each peak index exactly
  the features under that peak's chromosome that strictly overlap the peak (in the order of
  the feature list), and no entry when there is none: the shared forward pointer never skips
  an overlapping feature and the scan collects no other feature.\<close>

theorem annotate_overlaps_exact:
  assumes "\<forall>c l. feature_grouped c = Some l \<longrightarrow> sorted (map f_start l)"
    and "idx < length peaks"
    and "peaks ! idx = (chrom, pstart, pend)"
  shows "annotate_overlaps peaks feature_grouped idx =
           (case feature_grouped chrom of
              None \<Rightarrow> None
            | Some f_list \<Rightarrow>
                let cand = filter (\<lambda>f. pstart < f_end f \<and> f_start f < pend) f_list
                in if cand \<noteq> [] then Some cand else None)"
  using assms by (rule annotate_overlaps_lookup)

theorem annotate_overlaps_exact_witness:
  "sorted (map f_start
      [\<lparr>f_chrom = ''chr1'', f_start = 0, f_end = 150, f_gene_name = ''A'', f_tss = 10\<rparr>,
       \<lparr>f_chrom = ''chr1'', f_start = 90, f_end = 100, f_gene_name = ''B'', f_tss = 95\<rparr>,
       \<lparr>f_chrom = ''chr1'', f_start = 170, f_end = 300, f_gene_name = ''C'', f_tss = 200\<rparr>,
       \<lparr>f_chrom = ''chr1'', f_start = 180, f_end = 400, f_gene_name = ''D'', f_tss = 200\<rparr>]) \<and>
   annotate_overlaps [(''chr1'', 100, 180)]
     (map_of [(''chr1'',
      [\<lparr>f_chrom = ''chr1'', f_start = 0, f_end = 150, f_gene_name = ''A'', f_tss = 10\<rparr>,
       \<lparr>f_chrom = ''chr1'', f_start = 90, f_end = 100, f_gene_name = ''B'', f_tss = 95\<rparr>,
       \<lparr>f_chrom = ''chr1'', f_start = 170, f_end = 300, f_gene_name = ''C'', f_tss = 200\<rparr>,
       \<lparr>f_chrom = ''chr1'', f_start = 180, f_end = 400, f_gene_name = ''D'', f_tss = 200\<rparr>])]) 0
   = Some [\<lparr>f_chrom = ''chr1'', f_start = 0, f_end = 150, f_gene_name = ''A'', f_tss = 10\<rparr>,
           \<lparr>f_chrom = ''chr1'', f_start = 170, f_end = 300, f_gene_name = ''C'', f_tss = 200\<rparr>]"
proof -
  let ?fs = "[\<lparr>f_chrom = ''chr1'', f_start = 0, f_end = 150, f_gene_name = ''A'', f_tss = 10\<rparr>,
       \<lparr>f_chrom = ''chr1'', f_start = 90, f_end = 100, f_gene_name = ''B'', f_tss = 95\<rparr>,
       \<lparr>f_chrom = ''chr1'', f_start = 170, f_end = 300, f_gene_name = ''C'', f_tss = 200\<rparr>,
       \<lparr>f_chrom = ''chr1'', f_start = 180, f_end = 400, f_gene_name = ''D'', f_tss = 200\<rparr>]"
  have srt: "sorted (map f_start ?fs)" by simp
  then have h1: "\<forall>c l. map_of [(''chr1'', ?fs)] c = Some l \<longrightarrow> sorted (map f_start l)"
    by (auto split: if_splits)
  have h2: "0 < length [(''chr1'', 100, 180 :: int) :: genomic_interval]" by simp
  have h3: "[(''chr1'', 100, 180)] ! 0 = (''chr1'', 100 :: int, 180 :: int)" by simp
  have "annotate_overlaps [(''chr1'', 100, 180)] (map_of [(''chr1'', ?fs)]) 0 =
      (case map_of [(''chr1'', ?fs)] ''chr1'' of
         None \<Rightarrow> None
       | Some f_list \<Rightarrow>
           let cand = filter (\<lambda>f. 100 < f_end f \<and> f_start f < 180) f_list
           in if cand \<noteq> [] then Some cand else None)"
    by (rule annotate_overlaps_exact[OF h1 h2 h3])
  also have "\<dots> = Some [?fs ! 0, ?fs ! 2]" by simp
  finally show ?thesis using srt by simp
qed

section \<open>Annotation categories\<close>

text \<open>Claim C7. \<open>annotate_peaks\<close> classifies every peak in strict priority order: it
  is \<open>promoter\<close> if the peak strictly overlaps at least one promoter window of its
  chromosome; otherwise \<open>gene_body\<close> if it strictly overlaps the \<open>[start, end)\<close> span
  of at least one gene of its chromosome; otherwise \<open>intergenic\<close>. In particular a peak
  that overlaps a promoter window and the body of another gene is \<open>promoter\<close>. The call
  always returns, with one row per peak.\<close>

theorem annotate_peaks_priority:
  assumes idx: "idx < length peaks" and peak: "peaks ! idx = (chrom, s, e)"
  shows "\<exists>out. annotate_peaks peaks genes up down = Some out \<and> length out = length peaks \<and>
           row_annotation (out ! idx) =
             (if \<exists>f \<in> set (build_promoters genes up down).
                   f_chrom f = chrom \<and> s < f_end f \<and> f_start f < e
              then ''promoter''
              else if \<exists>g \<in> set genes. g_chrom g = chrom \<and> s < g_end g \<and> g_start g < e
              then ''gene_body''
              else ''intergenic'')"
proof -
  let ?ph = "annotate_overlaps peaks (map_of (group_by_chrom_intervals (build_promoters genes up down)))"
  let ?gh = "annotate_overlaps peaks (map_of (group_by_chrom_intervals (map gene_body genes)))"
  from annotate_peaks_rows[of peaks genes up down] idx peak obtain out where
    out: "annotate_peaks peaks genes up down = Some out" "length out = length peaks"
    and row: "annotate_row ?ph ?gh (build_tss_index genes) idx (chrom, s, e) = Some (out ! idx)"
    by auto
  have ph: "?ph idx \<noteq> None \<longleftrightarrow>
      (\<exists>f \<in> set (build_promoters genes up down). f_chrom f = chrom \<and> s < f_end f \<and> f_start f < e)"
    unfolding feature_hits_lookup[OF idx peak] Let_def feature_hits_nonempty[symmetric] by simp
  have "?gh idx \<noteq> None \<longleftrightarrow>
      (\<exists>f \<in> set (map gene_body genes). f_chrom f = chrom \<and> s < f_end f \<and> f_start f < e)"
    unfolding feature_hits_lookup[OF idx peak] Let_def feature_hits_nonempty[symmetric] by simp
  then have gh: "?gh idx \<noteq> None \<longleftrightarrow>
      (\<exists>g \<in> set genes. g_chrom g = chrom \<and> s < g_end g \<and> g_start g < e)"
    by (simp add: gene_body_def)
  show ?thesis
    using out annotate_row_annotation[OF row] unfolding ph gh by blast
qed

theorem annotate_peaks_priority_witness:
  "(0::nat) < length [(''chr1'', 100 :: int, 180 :: int)] \<and>
   (\<exists>out. annotate_peaks [(''chr1'', 100, 180)]
      [\<lparr>g_chrom = ''chr1'', g_start = 150, g_end = 1000, g_strand = ''+'', g_gene_id = ''G1'',
         g_gene_name = ''G1'', g_tss = 150\<rparr>,
       \<lparr>g_chrom = ''chr1'', g_start = 120, g_end = 90000, g_strand = ''-'', g_gene_id = ''G2'',
         g_gene_name = ''G2'', g_tss = 89999\<rparr>] 2000 200 = Some out \<and>
      row_annotation (out ! 0) = ''promoter'')"
proof -
  let ?peaks = "[(''chr1'', 100 :: int, 180 :: int)]"
  let ?genes = "[\<lparr>g_chrom = ''chr1'', g_start = 150, g_end = 1000, g_strand = ''+'', g_gene_id = ''G1'',
         g_gene_name = ''G1'', g_tss = 150\<rparr>,
       \<lparr>g_chrom = ''chr1'', g_start = 120, g_end = 90000, g_strand = ''-'', g_gene_id = ''G2'',
         g_gene_name = ''G2'', g_tss = 89999\<rparr>]"
  have h1: "0 < length ?peaks" by simp
  have h2: "?peaks ! 0 = (''chr1'', 100, 180)" by simp
  from annotate_peaks_priority[OF h1 h2, of ?genes 2000 200]
  obtain out where "annotate_peaks ?peaks ?genes 2000 200 = Some out"
    and "row_annotation (out ! 0) =
             (if \<exists>f \<in> set (build_promoters ?genes 2000 200).
                   f_chrom f = ''chr1'' \<and> 100 < f_end f \<and> f_start f < 180
              then ''promoter''
              else if \<exists>g \<in> set ?genes. g_chrom g = ''chr1'' \<and> 100 < g_end g \<and> g_start g < 180
              then ''gene_body''
              else ''intergenic'')"
    by blast
  moreover have "\<exists>f \<in> set (build_promoters ?genes 2000 200).
                   f_chrom f = ''chr1'' \<and> 100 < f_end f \<and> f_start f < 180"
    by simp
  ultimately show ?thesis by auto
qed

section \<open>Gene assignment among overlapping candidates\<close>

text \<open>Claim C8 asks that a peak annotated \<open>promoter\<close> or \<open>gene_body\<close> is assigned the
  overlapping candidate whose TSS is closest to the peak center, with the signed distance
  to that TSS. \<open>assign_best_gene_by_tss_distance\<close> does not deliver this when every
  candidate is \<open>10**18\<close> or more away: its search starts from \<open>best_dist = 10**18\<close> in
  place of infinity and only accepts strictly smaller distances. The peak \<open>[0, 2)\<close> lies
  in the bodies of two minus-strand genes whose TSS are beyond \<open>2 * 10**18\<close>; it is
  annotated \<open>gene_body\<close> with the empty gene name and distance 0, not with the closer
  gene \<open>G1\<close> and the distance \<open>1 - 2000000000000000009\<close>.\<close>

theorem assigned_gene_lost_beyond_sentinel:
  "annotate_peaks [(''chr1'', 0, 2)]
     [\<lparr>g_chrom = ''chr1'', g_start = 0, g_end = 2000000000000000010, g_strand = ''-'',
        g_gene_id = ''G1'', g_gene_name = ''G1'', g_tss = 2000000000000000009\<rparr>,
      \<lparr>g_chrom = ''chr1'', g_start = 1, g_end = 3000000000000000000, g_strand = ''-'',
        g_gene_id = ''G2'', g_gene_name = ''G2'', g_tss = 2999999999999999999\<rparr>] 2000 200
   = Some [\<lparr>row_peak_id = 0, row_chrom = ''chr1'', row_start = 0, row_end = 2,
             row_annotation = ''gene_body'', row_gene = '''', row_distance_to_TSS = 0\<rparr>]"
  by code_simp

text \<open>Below that start value the search is right. Whenever a peak is annotated
  \<open>promoter\<close> or \<open>gene_body\<close>, its candidates are the features of that kind on its
  chromosome that strictly overlap it, in start-sorted feature order, and there is at least
  one. If some candidate has its TSS less than \<open>10**18\<close> away from
  \<open>peak_center = (start + end) // 2\<close>, the assigned gene is the candidate that minimizes
  \<open>|peak_center - tss|\<close>, the first such candidate in that order on a tie, and
  \<open>distance_to_TSS\<close> is \<open>peak_center - tss\<close> of that candidate.\<close>

lemma assigned_gene_first_closest:
  assumes idx: "idx < length peaks" and peak: "peaks ! idx = (chrom, s, e)"
  shows "\<exists>out. annotate_peaks peaks genes up down = Some out \<and>
     (row_annotation (out ! idx) = ''promoter'' \<or> row_annotation (out ! idx) = ''gene_body'' \<longrightarrow>
       (let center = (s + e) div 2;
            feats = (if row_annotation (out ! idx) = ''promoter''
                     then build_promoters genes up down else map gene_body genes);
            cands = filter (\<lambda>f. s < f_end f \<and> f_start f < e)
                      (sort_key f_start (filter (\<lambda>f. f_chrom f = chrom) feats))
        in cands \<noteq> [] \<and>
           ((\<exists>c \<in> set cands. \<bar>center - f_tss c\<bar> < 10 ^ 18) \<longrightarrow>
            (\<exists>k < length cands.
               row_gene (out ! idx) = f_gene_name (cands ! k) \<and>
               row_distance_to_TSS (out ! idx) = center - f_tss (cands ! k) \<and>
               (\<forall>m < length cands. \<bar>center - f_tss (cands ! k)\<bar> \<le> \<bar>center - f_tss (cands ! m)\<bar>) \<and>
               (\<forall>m < k. \<bar>center - f_tss (cands ! k)\<bar> < \<bar>center - f_tss (cands ! m)\<bar>)))))"
proof -
  let ?ph = "annotate_overlaps peaks (map_of (group_by_chrom_intervals (build_promoters genes up down)))"
  let ?gh = "annotate_overlaps peaks (map_of (group_by_chrom_intervals (map gene_body genes)))"
  let ?center = "(s + e) div 2"
  let ?cands = "\<lambda>feats. filter (\<lambda>f. s < f_end f \<and> f_start f < e)
                      (sort_key f_start (filter (\<lambda>f. f_chrom f = chrom) feats))"
  let ?pc = "?cands (build_promoters genes up down)"
  let ?gc = "?cands (map gene_body genes)"
  from annotate_peaks_rows[of peaks genes up down] idx peak obtain out where
    out: "annotate_peaks peaks genes up down = Some out"
    and row: "annotate_row ?ph ?gh (build_tss_index genes) idx (chrom, s, e) = Some (out ! idx)"
    by auto
  have ph: "?ph idx = (if ?pc \<noteq> [] then Some ?pc else None)"
    unfolding feature_hits_lookup[OF idx peak] Let_def by simp
  have gh: "?gh idx = (if ?gc \<noteq> [] then Some ?gc else None)"
    unfolding feature_hits_lookup[OF idx peak] Let_def by simp
  note ann = annotate_row_annotation[OF row]
  note asg = annotate_row_assigned[OF row]
  have good: "\<exists>k < length cs.
               row_gene (out ! idx) = f_gene_name (cs ! k) \<and>
               row_distance_to_TSS (out ! idx) = ?center - f_tss (cs ! k) \<and>
               (\<forall>m < length cs. \<bar>?center - f_tss (cs ! k)\<bar> \<le> \<bar>?center - f_tss (cs ! m)\<bar>) \<and>
               (\<forall>m < k. \<bar>?center - f_tss (cs ! k)\<bar> < \<bar>?center - f_tss (cs ! m)\<bar>)"
    if eq: "(row_gene (out ! idx), row_distance_to_TSS (out ! idx)) =
              assign_best_gene_by_tss_distance ?center cs"
      and near: "\<exists>c \<in> set cs. \<bar>?center - f_tss c\<bar> < 10 ^ 18" for cs
  proof -
    from assign_best_char[of cs ?center] near obtain k where k: "k < length cs"
      "assign_best_gene_by_tss_distance ?center cs = (f_gene_name (cs ! k), ?center - f_tss (cs ! k))"
      "\<forall>m < length cs. \<bar>?center - f_tss (cs ! k)\<bar> \<le> \<bar>?center - f_tss (cs ! m)\<bar>"
      "\<forall>m < k. \<bar>?center - f_tss (cs ! k)\<bar> < \<bar>?center - f_tss (cs ! m)\<bar>"
      by auto
    from eq k(2) have "row_gene (out ! idx) = f_gene_name (cs ! k)"
      "row_distance_to_TSS (out ! idx) = ?center - f_tss (cs ! k)" by simp_all
    with k show ?thesis by blast
  qed
  have "(let center = (s + e) div 2;
            feats = (if row_annotation (out ! idx) = ''promoter''
                     then build_promoters genes up down else map gene_body genes);
            cands = filter (\<lambda>f. s < f_end f \<and> f_start f < e)
                      (sort_key f_start (filter (\<lambda>f. f_chrom f = chrom) feats))
        in cands \<noteq> [] \<and>
           ((\<exists>c \<in> set cands. \<bar>center - f_tss c\<bar> < 10 ^ 18) \<longrightarrow>
            (\<exists>k < length cands.
               row_gene (out ! idx) = f_gene_name (cands ! k) \<and>
               row_distance_to_TSS (out ! idx) = center - f_tss (cands ! k) \<and>
               (\<forall>m < length cands. \<bar>center - f_tss (cands ! k)\<bar> \<le> \<bar>center - f_tss (cands ! m)\<bar>) \<and>
               (\<forall>m < k. \<bar>center - f_tss (cands ! k)\<bar> < \<bar>center - f_tss (cands ! m)\<bar>))))"
    if a: "row_annotation (out ! idx) = ''promoter'' \<or> row_annotation (out ! idx) = ''gene_body''"
  proof (cases "row_annotation (out ! idx) = ''promoter''")
    case True
    with ann have "?ph idx \<noteq> None" by (auto split: if_splits)
    with ph have ne: "?pc \<noteq> []" and some: "?ph idx = Some ?pc" by (auto split: if_splits)
    from asg some have "(row_gene (out ! idx), row_distance_to_TSS (out ! idx)) =
              assign_best_gene_by_tss_distance ?center ?pc" by simp
    from good[OF this] ne True show ?thesis unfolding Let_def by simp
  next
    case False
    with a have gb: "row_annotation (out ! idx) = ''gene_body''" by simp
    with ann have "?ph idx = None" "?gh idx \<noteq> None" by (auto split: if_splits)
    with gh have ne: "?gc \<noteq> []" and some: "?gh idx = Some ?gc" and none: "?ph idx = None"
      by (auto split: if_splits)
    from asg some none have "(row_gene (out ! idx), row_distance_to_TSS (out ! idx)) =
              assign_best_gene_by_tss_distance ?center ?gc" by simp
    from good[OF this] ne False show ?thesis unfolding Let_def by simp
  qed
  with out show ?thesis by blast
qed

lemma assigned_gene_first_closest_example:
  "(0::nat) < length [(''chr1'', 100 :: int, 180 :: int)] \<and>
   (\<exists>out. annotate_peaks [(''chr1'', 100, 180)]
      [\<lparr>g_chrom = ''chr1'', g_start = 150, g_end = 1000, g_strand = ''+'', g_gene_id = ''G1'',
         g_gene_name = ''G1'', g_tss = 150\<rparr>,
       \<lparr>g_chrom = ''chr1'', g_start = 130, g_end = 500, g_strand = ''+'', g_gene_id = ''G3'',
         g_gene_name = ''G3'', g_tss = 130\<rparr>] 2000 200 = Some out \<and>
      row_annotation (out ! 0) = ''promoter'' \<and>
      row_gene (out ! 0) = ''G1'' \<and> row_distance_to_TSS (out ! 0) = - 10)"
proof -
  let ?peaks = "[(''chr1'', 100 :: int, 180 :: int)]"
  let ?genes = "[\<lparr>g_chrom = ''chr1'', g_start = 150, g_end = 1000, g_strand = ''+'', g_gene_id = ''G1'',
         g_gene_name = ''G1'', g_tss = 150\<rparr>,
       \<lparr>g_chrom = ''chr1'', g_start = 130, g_end = 500, g_strand = ''+'', g_gene_id = ''G3'',
         g_gene_name = ''G3'', g_tss = 130\<rparr>]"
  let ?p1 = "\<lparr>f_chrom = ''chr1'', f_start = 0, f_end = 350, f_gene_name = ''G1'', f_tss = 150\<rparr>"
  let ?p3 = "\<lparr>f_chrom = ''chr1'', f_start = 0, f_end = 330, f_gene_name = ''G3'', f_tss = 130\<rparr>"
  let ?row = "\<lparr>row_peak_id = 0, row_chrom = ''chr1'', row_start = 100, row_end = 180,
             row_annotation = ''promoter'', row_gene = ''G1'', row_distance_to_TSS = - 10\<rparr>"
  have h1: "0 < length ?peaks" by simp
  have h2: "?peaks ! 0 = (''chr1'', 100, 180)" by simp
  have ev: "annotate_peaks ?peaks ?genes 2000 200 = Some [?row]" by code_simp
  from assigned_gene_first_closest[OF h1 h2, of ?genes 2000 200]
  obtain out where o: "annotate_peaks ?peaks ?genes 2000 200 = Some out" by blast
  with ev have "out = [?row]" by simp
  with o h1 show ?thesis by simp
qed

section \<open>Gene assignment of intergenic peaks\<close>

text \<open>Claim C9 asks that an intergenic peak on a chromosome with at least one gene is
  assigned a gene whose TSS is nearest to the peak center. \<open>nearest_tss\<close> does not deliver
  this when every gene of the chromosome has its TSS \<open>10**18\<close> or more away: it starts
  from \<open>best_dist = 10**18\<close> in place of infinity, as the candidate search does. The
  intergenic peak \<open>[0, 2)\<close> on a chromosome whose only gene \<open>G1\<close> has its TSS at
  \<open>2 * 10**18\<close> gets the empty gene name and distance 0, not \<open>G1\<close> and the distance
  \<open>1 - 2000000000000000000\<close>.\<close>

theorem nearest_gene_lost_beyond_sentinel:
  "annotate_peaks [(''chr1'', 0, 2)]
     [\<lparr>g_chrom = ''chr1'', g_start = 2000000000000000000, g_end = 2000000000000000010,
        g_strand = ''+'', g_gene_id = ''G1'', g_gene_name = ''G1'',
        g_tss = 2000000000000000000\<rparr>] 2000 200
   = Some [\<lparr>row_peak_id = 0, row_chrom = ''chr1'', row_start = 0, row_end = 2,
             row_annotation = ''intergenic'', row_gene = '''', row_distance_to_TSS = 0\<rparr>]"
  by code_simp

text \<open>Below that start value the lookup is right. For every intergenic peak: if its
  chromosome has no gene, the gene name is empty and the distance is 0. If the chromosome has
  genes and at least one TSS is less than \<open>10**18\<close> away from the peak center, the assigned
  gene is a gene of that chromosome whose TSS minimizes \<open>|peak_center - tss|\<close> over all
  genes of the chromosome, with the smaller TSS coordinate on a tie of distances, and the
  distance is \<open>peak_center - tss\<close> of that gene.\<close>

lemma intergenic_nearest_tss:
  assumes idx: "idx < length peaks" and peak: "peaks ! idx = (chrom, s, e)"
  shows "\<exists>out. annotate_peaks peaks genes up down = Some out \<and>
     (row_annotation (out ! idx) = ''intergenic'' \<longrightarrow>
       (let center = (s + e) div 2;
            chrom_genes = filter (\<lambda>g. g_chrom g = chrom) genes
        in if chrom_genes = []
           then row_gene (out ! idx) = '''' \<and> row_distance_to_TSS (out ! idx) = 0
           else (\<exists>g \<in> set chrom_genes. \<bar>center - g_tss g\<bar> < 10 ^ 18) \<longrightarrow>
                (\<exists>g \<in> set chrom_genes.
                    row_gene (out ! idx) = g_gene_name g \<and>
                    row_distance_to_TSS (out ! idx) = center - g_tss g \<and>
                    (\<forall>g' \<in> set chrom_genes. \<bar>center - g_tss g\<bar> \<le> \<bar>center - g_tss g'\<bar>) \<and>
                    (\<forall>g' \<in> set chrom_genes.
                        \<bar>center - g_tss g'\<bar> = \<bar>center - g_tss g\<bar> \<longrightarrow> g_tss g \<le> g_tss g'))))"
proof -
  let ?ph = "annotate_overlaps peaks (map_of (group_by_chrom_intervals (build_promoters genes up down)))"
  let ?gh = "annotate_overlaps peaks (map_of (group_by_chrom_intervals (map gene_body genes)))"
  let ?center = "(s + e) div 2"
  let ?G = "filter (\<lambda>g. g_chrom g = chrom) genes"
  let ?arr = "sort_key fst (map (\<lambda>g. (g_tss g, g_gene_name g)) ?G)"
  from annotate_peaks_rows[of peaks genes up down] idx peak obtain out where
    out: "annotate_peaks peaks genes up down = Some out"
    and row: "annotate_row ?ph ?gh (build_tss_index genes) idx (chrom, s, e) = Some (out ! idx)"
    by auto
  note ann = annotate_row_annotation[OF row]
  note asg = annotate_row_assigned[OF row]
  have main: "if ?G = []
           then row_gene (out ! idx) = '''' \<and> row_distance_to_TSS (out ! idx) = 0
           else (\<exists>g \<in> set ?G. \<bar>?center - g_tss g\<bar> < 10 ^ 18) \<longrightarrow>
                (\<exists>g \<in> set ?G.
                    row_gene (out ! idx) = g_gene_name g \<and>
                    row_distance_to_TSS (out ! idx) = ?center - g_tss g \<and>
                    (\<forall>g' \<in> set ?G. \<bar>?center - g_tss g\<bar> \<le> \<bar>?center - g_tss g'\<bar>) \<and>
                    (\<forall>g' \<in> set ?G.
                        \<bar>?center - g_tss g'\<bar> = \<bar>?center - g_tss g\<bar> \<longrightarrow> g_tss g \<le> g_tss g'))"
    if inter: "row_annotation (out ! idx) = ''intergenic''"
  proof -
    from ann inter have none: "?ph idx = None" "?gh idx = None" by (auto split: if_splits)
    with asg have res: "(row_gene (out ! idx), row_distance_to_TSS (out ! idx)) =
        (case map_of (build_tss_index genes) chrom of
           Some (ts, ns) \<Rightarrow> the (nearest_tss ts ns ?center)
         | None \<Rightarrow> ('''', 0))" by simp
    show ?thesis
    proof (cases "?G = []")
      case True
      then have "chrom \<notin> g_chrom ` set genes" by (auto simp: filter_empty_conv)
      then have "map_of (build_tss_index genes) chrom = None"
        unfolding build_tss_index_lookup by simp
      with res True show ?thesis by simp
    next
      case False
      then have "chrom \<in> g_chrom ` set genes" by (auto simp: filter_empty_conv)
      then have look: "map_of (build_tss_index genes) chrom = Some (map fst ?arr, map snd ?arr)"
        unfolding build_tss_index_lookup by (simp add: Let_def)
      note ent = tss_index_entry[OF look]
      have res': "(row_gene (out ! idx), row_distance_to_TSS (out ! idx)) =
          the (nearest_tss (map fst ?arr) (map snd ?arr) ?center)"
        using res look by simp
      have set_ts: "set (map fst ?arr) = g_tss ` set ?G" by (simp add: image_image)
      have goal: "\<exists>g \<in> set ?G.
                    row_gene (out ! idx) = g_gene_name g \<and>
                    row_distance_to_TSS (out ! idx) = ?center - g_tss g \<and>
                    (\<forall>g' \<in> set ?G. \<bar>?center - g_tss g\<bar> \<le> \<bar>?center - g_tss g'\<bar>) \<and>
                    (\<forall>g' \<in> set ?G.
                        \<bar>?center - g_tss g'\<bar> = \<bar>?center - g_tss g\<bar> \<longrightarrow> g_tss g \<le> g_tss g')"
        if near: "\<exists>g \<in> set ?G. \<bar>?center - g_tss g\<bar> < 10 ^ 18"
      proof -
        from near have "\<exists>t \<in> set (map fst ?arr). \<bar>?center - t\<bar> < 10 ^ 18"
          unfolding set_ts by blast
        with nearest_tss_min[of "map fst ?arr" "map snd ?arr" ?center] ent
        obtain b where b: "b < length (map fst ?arr)"
          and nt: "nearest_tss (map fst ?arr) (map snd ?arr) ?center =
                Some (map snd ?arr ! b, ?center - map fst ?arr ! b)"
          and mn: "\<forall>t \<in> set (map fst ?arr). \<bar>?center - map fst ?arr ! b\<bar> \<le> \<bar>?center - t\<bar>"
          and tie: "\<forall>t \<in> set (map fst ?arr).
                \<bar>?center - t\<bar> = \<bar>?center - map fst ?arr ! b\<bar> \<longrightarrow> map fst ?arr ! b \<le> t"
          by auto
        from b have blen: "b < length ?arr" by simp
        then have "?arr ! b \<in> set ?arr" by (rule nth_mem)
        then have "?arr ! b \<in> (\<lambda>g. (g_tss g, g_gene_name g)) ` set ?G" by simp
        then obtain g where g: "g \<in> set ?G" "?arr ! b = (g_tss g, g_gene_name g)" by blast
        have fstb: "map fst ?arr ! b = g_tss g" and sndb: "map snd ?arr ! b = g_gene_name g"
          using blen g(2) by (simp_all add: nth_map)
        from res' nt have "row_gene (out ! idx) = g_gene_name g"
          "row_distance_to_TSS (out ! idx) = ?center - g_tss g"
          unfolding fstb sndb by simp_all
        moreover have "\<forall>g' \<in> set ?G. \<bar>?center - g_tss g\<bar> \<le> \<bar>?center - g_tss g'\<bar>"
          using mn unfolding fstb set_ts by blast
        moreover have "\<forall>g' \<in> set ?G.
                        \<bar>?center - g_tss g'\<bar> = \<bar>?center - g_tss g\<bar> \<longrightarrow> g_tss g \<le> g_tss g'"
          using tie unfolding fstb set_ts by blast
        ultimately show ?thesis using g(1) by blast
      qed
      with False show ?thesis by simp
    qed
  qed
  then show ?thesis using out unfolding Let_def by blast
qed

lemma intergenic_nearest_tss_example:
  "(0::nat) < length [(''chr1'', 5000 :: int, 5100 :: int)] \<and>
   (\<exists>out. annotate_peaks [(''chr1'', 5000, 5100)]
      [\<lparr>g_chrom = ''chr1'', g_start = 4000, g_end = 4900, g_strand = ''+'', g_gene_id = ''GA'',
         g_gene_name = ''GA'', g_tss = 4000\<rparr>,
       \<lparr>g_chrom = ''chr1'', g_start = 6100, g_end = 7000, g_strand = ''+'', g_gene_id = ''GB'',
         g_gene_name = ''GB'', g_tss = 6100\<rparr>] 100 50 = Some out \<and>
      row_annotation (out ! 0) = ''intergenic'' \<and>
      row_gene (out ! 0) = ''GA'' \<and> row_distance_to_TSS (out ! 0) = 1050)"
proof -
  let ?peaks = "[(''chr1'', 5000 :: int, 5100 :: int)]"
  let ?genes = "[\<lparr>g_chrom = ''chr1'', g_start = 4000, g_end = 4900, g_strand = ''+'', g_gene_id = ''GA'',
         g_gene_name = ''GA'', g_tss = 4000\<rparr>,
       \<lparr>g_chrom = ''chr1'', g_start = 6100, g_end = 7000, g_strand = ''+'', g_gene_id = ''GB'',
         g_gene_name = ''GB'', g_tss = 6100\<rparr>]"
  let ?row = "\<lparr>row_peak_id = 0, row_chrom = ''chr1'', row_start = 5000, row_end = 5100,
             row_annotation = ''intergenic'', row_gene = ''GA'', row_distance_to_TSS = 1050\<rparr>"
  have h1: "0 < length ?peaks" by simp
  have h2: "?peaks ! 0 = (''chr1'', 5000, 5100)" by simp
  have ev: "annotate_peaks ?peaks ?genes 100 50 = Some [?row]" by code_simp
  from intergenic_nearest_tss[OF h1 h2, of ?genes 100 50]
  obtain out where o: "annotate_peaks ?peaks ?genes 100 50 = Some out" by blast
  with ev have "out = [?row]" by simp
  with o h1 show ?thesis by simp
qed

section \<open>The dictionaries of union_peaks\<close>

text \<open>Step 1 as one pass over the (sample, peak) pairs, and what the two dictionaries hold
  afterwards.\<close>

lemma map_of_nested_append:
  "map_of (nested_append k j v d) k' =
     (if k' = k then Some (setdefault_append j v (dd_get d k)) else map_of d k')"
  by (induction d) (auto simp: dd_get_def)

lemma filter_key_empty: "a \<notin> kf ` set xs \<Longrightarrow> filter (\<lambda>y. kf y = a) xs = []"
  by (auto simp: filter_empty_conv)

lemma nested_fold_lookup:
  "map_of (foldl (\<lambda>d x. nested_append (kf x) (jf x) (vf x) d) d xs) k =
     (if k \<in> kf ` set xs
      then Some (foldl (\<lambda>d' x. setdefault_append (jf x) (vf x) d') (dd_get d k)
                   (filter (\<lambda>x. kf x = k) xs))
      else map_of d k)"
proof (induction xs arbitrary: d)
  case Nil
  show ?case by simp
next
  case (Cons x xs)
  have empty: "filter (\<lambda>y. kf y = k) xs = []" if "k \<notin> kf ` set xs"
    using that by (auto simp: filter_empty_conv)
  show ?case
  proof (cases "k \<in> kf ` set xs")
    case True
    then show ?thesis
      unfolding foldl_Cons Cons.IH by (simp add: map_of_nested_append dd_get_def)
  next
    case False
    then show ?thesis
      unfolding foldl_Cons Cons.IH
      by (auto simp: map_of_nested_append dd_get_def filter_key_empty)
  qed
qed

lemma collect_peaks_flat_aux:
  "foldl (\<lambda>st (sample, peaks).
              foldl (\<lambda>(a, b) (chrom, start, end').
                       (setdefault_append chrom (start, end') a,
                        if rm then nested_append chrom sample (start, end') b else b))
                st peaks) st0 pbs
   = foldl (\<lambda>(a, b) (sample, chrom, start, end').
              (setdefault_append chrom (start, end') a,
               if rm then nested_append chrom sample (start, end') b else b))
       st0 (sample_peaks pbs)"
proof (induction pbs arbitrary: st0)
  case Nil
  show ?case by (simp add: sample_peaks_def)
next
  case (Cons sp pbs)
  obtain sample peaks where sp: "sp = (sample, peaks)" by (cases sp)
  have inner: "foldl (\<lambda>(a, b) (chrom, start, end').
                       (setdefault_append chrom (start, end') a,
                        if rm then nested_append chrom sample (start, end') b else b)) st peaks
     = foldl (\<lambda>(a, b) (sample, chrom, start, end').
              (setdefault_append chrom (start, end') a,
               if rm then nested_append chrom sample (start, end') b else b))
         st (map (\<lambda>p. (sample, p)) peaks)" for st
    by (induction peaks arbitrary: st) (auto simp: case_prod_unfold)
  have sp_eq: "sample_peaks ((sample, peaks) # pbs) = map (\<lambda>p. (sample, p)) peaks @ sample_peaks pbs"
    by (simp add: sample_peaks_def)
  show ?case
    unfolding sp sp_eq foldl_append foldl_Cons
    by (simp only: prod.case inner Cons.IH)
qed

lemma fold_pair_split:
  "foldl (\<lambda>(a, b) x. (f a x, g b x)) (a0, b0) xs = (foldl f a0 xs, foldl g b0 xs)"
  by (induction xs arbitrary: a0 b0) auto

lemma collect_peaks_split:
  "collect_peaks pbs rm =
     (foldl (\<lambda>d x. setdefault_append (fst (snd x)) (snd (snd x)) d) [] (sample_peaks pbs),
      if rm then foldl (\<lambda>d x. nested_append (fst (snd x)) (fst x) (snd (snd x)) d) [] (sample_peaks pbs)
      else [])"
proof -
  have "collect_peaks pbs rm =
      foldl (\<lambda>(a, b) x. (setdefault_append (fst (snd x)) (snd (snd x)) a,
               if rm then nested_append (fst (snd x)) (fst x) (snd (snd x)) b else b))
       ([], []) (sample_peaks pbs)"
    unfolding collect_peaks_def collect_peaks_flat_aux
    by (rule arg_cong[where f = "\<lambda>f. foldl f ([], []) (sample_peaks pbs)"])
       (auto simp: fun_eq_iff)
  also have "\<dots> = (foldl (\<lambda>d x. setdefault_append (fst (snd x)) (snd (snd x)) d) [] (sample_peaks pbs),
      foldl (\<lambda>b x. if rm then nested_append (fst (snd x)) (fst x) (snd (snd x)) b else b) [] (sample_peaks pbs))"
    by (rule fold_pair_split)
  also have "foldl (\<lambda>b x. if rm then nested_append (fst (snd x)) (fst x) (snd (snd x)) b else b) [] (sample_peaks pbs)
     = (if rm then foldl (\<lambda>d x. nested_append (fst (snd x)) (fst x) (snd (snd x)) d) [] (sample_peaks pbs)
      else [])"
  proof (cases rm)
    case True
    then show ?thesis by simp
  next
    case False
    have "foldl (\<lambda>b x. b) b0 xs = b0" for b0 :: "'z" and xs :: "'y list"
      by (induction xs) simp_all
    with False show ?thesis by simp
  qed
  finally show ?thesis .
qed

lemma map_snd_sample_peaks: "map snd (sample_peaks pbs) = concat (map snd pbs)"
  by (induction pbs) (auto simp: sample_peaks_def comp_def)

lemma all_intervals_lookup:
  "dd_get (fst (collect_peaks pbs rm)) c =
     map snd (filter (\<lambda>p. fst p = c) (concat (map snd pbs)))"
proof -
  let ?items = "sample_peaks pbs"
  have "dd_get (fst (collect_peaks pbs rm)) c =
      map (\<lambda>x. snd (snd x)) (filter (\<lambda>x. fst (snd x) = c) ?items)"
    unfolding collect_peaks_split fst_conv dd_get_def group_fold_lookup
    by (auto simp: filter_key_empty)
  also have "\<dots> = map snd (filter (\<lambda>p. fst p = c) (map snd ?items))"
    by (simp add: filter_map comp_def)
  finally show ?thesis unfolding map_snd_sample_peaks .
qed

lemma all_intervals_keys:
  "distinct (map fst (fst (collect_peaks pbs rm)))"
  "set (map fst (fst (collect_peaks pbs rm))) = fst ` set (concat (map snd pbs))"
proof -
  show "distinct (map fst (fst (collect_peaks pbs rm)))"
    unfolding collect_peaks_split fst_conv by (rule group_fold_distinct) simp
  have "fst ` set (fst (collect_peaks pbs rm)) = (\<lambda>x. fst (snd x)) ` set (sample_peaks pbs)"
    unfolding collect_peaks_split fst_conv group_fold_keys by simp
  also have "\<dots> = fst ` set (map snd (sample_peaks pbs))" by (simp add: image_image)
  finally show "set (map fst (fst (collect_peaks pbs rm))) = fst ` set (concat (map snd pbs))"
    unfolding map_snd_sample_peaks by simp
qed

lemma sorted_keys:
  "sort (map fst (fst (collect_peaks pbs rm))) =
     sorted_list_of_set (fst ` set (concat (map snd pbs)))"
proof -
  have "sorted_list_of_set (set (map fst (fst (collect_peaks pbs rm)))) =
      sort (remdups (map fst (fst (collect_peaks pbs rm))))"
    by (rule sorted_list_of_set_sort_remdups)
  then show ?thesis
    unfolding all_intervals_keys(2) using all_intervals_keys(1)[of pbs rm]
    by (simp add: distinct_remdups_id)
qed

lemma build_union_list_eq:
  "build_union_list (fst (collect_peaks pbs rm)) =
     concat (map (\<lambda>c. map (\<lambda>(s, e). (c, s, e))
                       (merge_intervals_1d
                          (map snd (filter (\<lambda>p. fst p = c) (concat (map snd pbs))))))
               (sorted_list_of_set (fst ` set (concat (map snd pbs)))))"
  unfolding build_union_list_def sorted_keys all_intervals_lookup ..

lemma in_tagged_concat:
  "(c, s, e) \<in> set (concat (map (\<lambda>c. map (\<lambda>(s, e). (c, s, e)) (f c)) cs)) \<longleftrightarrow>
     c \<in> set cs \<and> (s, e) \<in> set (f c)"
  by (induction cs) auto

lemma filter_tagged_concat:
  "distinct cs \<Longrightarrow>
   filter (\<lambda>u. fst u = c) (concat (map (\<lambda>c. map (\<lambda>(s, e). (c, s, e)) (f c)) cs)) =
     (if c \<in> set cs then map (\<lambda>(s, e). (c, s, e)) (f c) else [])"
proof (induction cs)
  case Nil
  show ?case by simp
next
  case (Cons a cs)
  have own: "filter (\<lambda>u. fst u = c) (map (Pair a) xs) = (if a = c then map (Pair c) xs else [])"
    for xs :: "(int \<times> int) list"
    by (induction xs) auto
  show ?case
  proof (cases "a = c")
    case True
    with Cons show ?thesis by (simp add: own)
  next
    case False
    with Cons show ?thesis by (simp add: own)
  qed
qed

section \<open>Containment and coverage of the merge\<close>

text \<open>Every input interval lies inside one output interval, and the output covers exactly
  the points the input covers.\<close>

lemma merge_loop_contains:
  "sorted (map fst (m # rest)) \<Longrightarrow>
     \<forall>x \<in> set (m # rest). \<exists>u \<in> set (merge_loop [m] rest). fst u \<le> fst x \<and> snd x \<le> snd u"
proof (induction rest arbitrary: m)
  case Nil
  show ?case by simp
next
  case (Cons y rest)
  obtain s e where y: "y = (s, e)" by (cases y)
  obtain ls le where m: "m = (ls, le)" by (cases m)
  from Cons.prems have ls_s: "ls \<le> s" and srt: "sorted (map fst ((s, e) # rest))"
    and ls_all: "\<forall>z \<in> set rest. ls \<le> fst z"
    by (auto simp: y m)
  show ?case
  proof (cases "s \<le> le")
    case True
    let ?m' = "(ls, max le e)"
    have "sorted (map fst (?m' # rest))" using ls_all srt by auto
    from Cons.IH[OF this] have ih: "\<forall>x \<in> set (?m' # rest).
        \<exists>u \<in> set (merge_loop [?m'] rest). fst u \<le> fst x \<and> snd x \<le> snd u" .
    then obtain u where u: "u \<in> set (merge_loop [?m'] rest)" "fst u \<le> ls" "max le e \<le> snd u"
      by auto
    have eq: "merge_loop [m] (y # rest) = merge_loop [?m'] rest" using True by (simp add: y m)
    show ?thesis
    proof
      fix x assume "x \<in> set (m # y # rest)"
      then consider "x = m" | "x = y" | "x \<in> set rest" by auto
      then show "\<exists>u \<in> set (merge_loop [m] (y # rest)). fst u \<le> fst x \<and> snd x \<le> snd u"
      proof cases
        case 1
        then show ?thesis unfolding eq using u by (intro bexI[of _ u]) (auto simp: m)
      next
        case 2
        then show ?thesis unfolding eq using u ls_s by (intro bexI[of _ u]) (auto simp: y)
      next
        case 3
        then show ?thesis unfolding eq using ih by simp
      qed
    qed
  next
    case False
    have eq: "merge_loop [m] (y # rest) = m # merge_loop [(s, e)] rest"
      using False merge_loop_append[of "[m]" "(s, e)" rest] by (simp add: y m)
    from Cons.IH[OF srt] show ?thesis unfolding eq by (auto simp: y)
  qed
qed

lemma merge_loop_cover:
  "sorted (map fst (m # rest)) \<Longrightarrow>
     (\<exists>u \<in> set (merge_loop [m] rest). fst u \<le> p \<and> p < snd u) \<longleftrightarrow>
     (\<exists>x \<in> set (m # rest). fst x \<le> p \<and> p < snd x)"
proof (induction rest arbitrary: m)
  case Nil
  show ?case by simp
next
  case (Cons y rest)
  obtain s e where y: "y = (s, e)" by (cases y)
  obtain ls le where m: "m = (ls, le)" by (cases m)
  from Cons.prems have ls_s: "ls \<le> s" and srt: "sorted (map fst ((s, e) # rest))"
    and ls_all: "\<forall>z \<in> set rest. ls \<le> fst z"
    by (auto simp: y m)
  show ?case
  proof (cases "s \<le> le")
    case True
    let ?m' = "(ls, max le e)"
    have "sorted (map fst (?m' # rest))" using ls_all srt by auto
    from Cons.IH[OF this] have ih: "(\<exists>u \<in> set (merge_loop [?m'] rest). fst u \<le> p \<and> p < snd u) \<longleftrightarrow>
        (\<exists>x \<in> set (?m' # rest). fst x \<le> p \<and> p < snd x)" .
    have eq: "merge_loop [m] (y # rest) = merge_loop [?m'] rest" using True by (simp add: y m)
    have "(ls \<le> p \<and> p < max le e) \<longleftrightarrow> (ls \<le> p \<and> p < le) \<or> (s \<le> p \<and> p < e)"
      using True ls_s by auto
    then show ?thesis unfolding eq ih by (auto simp: y m)
  next
    case False
    have eq: "merge_loop [m] (y # rest) = m # merge_loop [(s, e)] rest"
      using False merge_loop_append[of "[m]" "(s, e)" rest] by (simp add: y m)
    from Cons.IH[OF srt] show ?thesis unfolding eq by (auto simp: y)
  qed
qed

lemma merge_loop_wf:
  "\<forall>x \<in> set (m # rest). fst x < snd x \<Longrightarrow> \<forall>u \<in> set (merge_loop [m] rest). fst u < snd u"
proof (induction rest arbitrary: m)
  case Nil
  then show ?case by simp
next
  case (Cons y rest)
  obtain s e where y: "y = (s, e)" by (cases y)
  obtain ls le where m: "m = (ls, le)" by (cases m)
  show ?case
  proof (cases "s \<le> le")
    case True
    have "\<forall>x \<in> set ((ls, max le e) # rest). fst x < snd x" using Cons.prems by (auto simp: m)
    from Cons.IH[OF this] show ?thesis using True by (simp add: y m)
  next
    case False
    have eq: "merge_loop [m] (y # rest) = m # merge_loop [(s, e)] rest"
      using False merge_loop_append[of "[m]" "(s, e)" rest] by (simp add: y m)
    have "\<forall>x \<in> set ((s, e) # rest). fst x < snd x" using Cons.prems by (auto simp: y)
    from Cons.IH[OF this] show ?thesis unfolding eq using Cons.prems by auto
  qed
qed

lemma merge_contains:
  "x \<in> set X \<Longrightarrow> \<exists>u \<in> set (merge_intervals_1d X). fst u \<le> fst x \<and> snd x \<le> snd u"
proof -
  assume x: "x \<in> set X"
  then have ne: "X \<noteq> []" by auto
  have srt: "sorted (map fst (hd (sort_key fst X) # tl (sort_key fst X)))"
    unfolding sort_key_hd_tl[OF ne] by (rule sorted_sort_key)
  have "x \<in> set (hd (sort_key fst X) # tl (sort_key fst X))"
    unfolding sort_key_hd_tl[OF ne] using x by simp
  with merge_loop_contains[OF srt] show ?thesis
    unfolding merge_intervals_1d_nonempty[OF ne] by blast
qed

lemma merge_cover:
  "(\<exists>u \<in> set (merge_intervals_1d X). fst u \<le> p \<and> p < snd u) \<longleftrightarrow>
   (\<exists>x \<in> set X. fst x \<le> p \<and> p < snd x)"
proof (cases "X = []")
  case True
  then show ?thesis by simp
next
  case ne: False
  have srt: "sorted (map fst (hd (sort_key fst X) # tl (sort_key fst X)))"
    unfolding sort_key_hd_tl[OF ne] by (rule sorted_sort_key)
  have "(\<exists>x \<in> set (hd (sort_key fst X) # tl (sort_key fst X)). fst x \<le> p \<and> p < snd x) \<longleftrightarrow>
      (\<exists>x \<in> set X. fst x \<le> p \<and> p < snd x)"
    unfolding sort_key_hd_tl[OF ne] by simp
  with merge_loop_cover[OF srt, of p] show ?thesis
    unfolding merge_intervals_1d_nonempty[OF ne] by blast
qed

lemma merge_wf:
  "\<forall>x \<in> set X. fst x < snd x \<Longrightarrow> \<forall>u \<in> set (merge_intervals_1d X). fst u < snd u"
proof (cases "X = []")
  case True
  then show ?thesis by simp
next
  case ne: False
  assume wf: "\<forall>x \<in> set X. fst x < snd x"
  have "set (hd (sort_key fst X) # tl (sort_key fst X)) = set X"
    unfolding sort_key_hd_tl[OF ne] by simp
  with wf have "\<forall>x \<in> set (hd (sort_key fst X) # tl (sort_key fst X)). fst x < snd x" by blast
  from merge_loop_wf[OF this] show ?thesis
    unfolding merge_intervals_1d_nonempty[OF ne] .
qed

lemma separated_by_value:
  assumes "sorted_wrt (\<lambda>a b. snd a < fst b) U" "u \<in> set U" "u' \<in> set U" "u \<noteq> u'"
  shows "snd u < fst u' \<or> snd u' < fst u"
proof -
  from assms(2,3) obtain i j where ij: "i < length U" "j < length U" "u = U ! i" "u' = U ! j"
    by (auto simp: in_set_conv_nth)
  with assms(4) have "i \<noteq> j" by auto
  then consider "i < j" | "j < i" by linarith
  then show ?thesis
    using assms(1) ij by cases (auto simp: sorted_wrt_iff_nth_less)
qed

section \<open>The membership sweep\<close>

text \<open>The sweep of one sample against the union peaks of one chromosome never misses a key,
  and, since every sample interval lies inside exactly one of the strictly separated union
  peaks, it records the sample for exactly the union peaks one of its intervals overlaps.\<close>

lemma member_sweep_step:
  "i < length ints \<Longrightarrow> j < length U \<Longrightarrow>
   member_sweep ints (map (\<lambda>u. (fst u, snd u, (c, u))) U) sample i j m =
     (case (if intervals_overlap (ints ! i) (U ! j)
            then membership_append m (c, U ! j) sample else Some m) of
        None \<Rightarrow> None
      | Some m' \<Rightarrow>
          if snd (ints ! i) \<le> snd (U ! j)
          then member_sweep ints (map (\<lambda>u. (fst u, snd u, (c, u))) U) sample (i + 1) j m'
          else member_sweep ints (map (\<lambda>u. (fst u, snd u, (c, u))) U) sample i (j + 1) m')"
  by (subst member_sweep.simps) simp

lemma member_sweep_stop:
  "\<not> (i < length ints \<and> j < length U) \<Longrightarrow>
   member_sweep ints (map (\<lambda>u. (fst u, snd u, (c, u))) U) sample i j m = Some m"
proof -
  assume "\<not> (i < length ints \<and> j < length U)"
  then have "\<not> (i < length ints \<and> j < length (map (\<lambda>u. (fst u, snd u, (c, u))) U))" by simp
  then show ?thesis by (subst member_sweep.simps) (simp only: if_False)
qed

lemma member_sweep_total:
  assumes "\<forall>u \<in> set U. (c, u) \<in> dom m"
  shows "\<exists>m'. member_sweep ints (map (\<lambda>u. (fst u, snd u, (c, u))) U) sample i j m = Some m' \<and>
           dom m' = dom m"
  using assms
proof (induction "(length ints - i) + (length U - j)" arbitrary: i j m rule: less_induct)
  case less
  show ?case
  proof (cases "i < length ints \<and> j < length U")
    case False
    then show ?thesis by (simp add: member_sweep_stop)
  next
    case True
    then have i: "i < length ints" and j: "j < length U" by simp_all
    let ?first = "(if intervals_overlap (ints ! i) (U ! j)
            then membership_append m (c, U ! j) sample else Some m)"
    have "(c, U ! j) \<in> dom m" using less.prems j by simp
    then obtain l where l: "m (c, U ! j) = Some l" by auto
    then obtain m1 where m1: "?first = Some m1" and dom1: "dom m1 = dom m"
      by (cases "intervals_overlap (ints ! i) (U ! j)") (auto simp: membership_append_def)
    have keys1: "\<forall>u \<in> set U. (c, u) \<in> dom m1" using less.prems dom1 by simp
    show ?thesis
    proof (cases "snd (ints ! i) \<le> snd (U ! j)")
      case le: True
      have "(length ints - (i + 1)) + (length U - j) < (length ints - i) + (length U - j)"
        using i by simp
      from less.hyps[OF this keys1] show ?thesis
        unfolding member_sweep_step[OF i j] m1 using le dom1 by simp
    next
      case gt: False
      have "(length ints - i) + (length U - (j + 1)) < (length ints - i) + (length U - j)"
        using j by simp
      from less.hyps[OF this keys1] show ?thesis
        unfolding member_sweep_step[OF i j] m1 using gt dom1 by simp
    qed
  qed
qed

lemma member_sweep_exact:
  assumes sep: "sorted_wrt (\<lambda>a b. snd a < fst b) U"
    and srt: "sorted (map fst ints)"
    and wf: "\<forall>x \<in> set ints. fst x < snd x"
  shows "(\<forall>i'. i \<le> i' \<and> i' < length ints \<longrightarrow>
            (\<exists>j'. j \<le> j' \<and> j' < length U \<and>
                  fst (U ! j') \<le> fst (ints ! i') \<and> snd (ints ! i') \<le> snd (U ! j'))) \<Longrightarrow>
         (\<forall>u \<in> set U. (c, u) \<in> dom m) \<Longrightarrow>
         \<exists>m'. member_sweep ints (map (\<lambda>u. (fst u, snd u, (c, u))) U) sample i j m = Some m' \<and>
              dom m' = dom m \<and>
              (\<forall>k. set (the (m' k)) = set (the (m k)) \<union>
                     (if \<exists>i' u. i \<le> i' \<and> i' < length ints \<and> u \<in> set U \<and> k = (c, u) \<and>
                                 intervals_overlap (ints ! i') u
                      then {sample} else {}))"
proof (induction "(length ints - i) + (length U - j)" arbitrary: i j m rule: less_induct)
  case less
  note cont = less.prems(1) and keys = less.prems(2)
  let ?uc = "map (\<lambda>u. (fst u, snd u, (c, u))) U"
  let ?E = "\<lambda>i k. \<exists>i' u. i \<le> i' \<and> i' < length ints \<and> u \<in> set U \<and> k = (c, u) \<and>
                                 intervals_overlap (ints ! i') u"
  have sepn: "snd (U ! a) < fst (U ! b)" if "a < b" "b < length U" for a b
    using sep that by (simp add: sorted_wrt_iff_nth_less)
  have wfn: "fst (ints ! a) < snd (ints ! a)" if "a < length ints" for a
    using wf that by simp
  have mono: "fst (ints ! a) \<le> fst (ints ! b)" if "a \<le> b" "b < length ints" for a b
    using srt that by (simp add: sorted_iff_nth_mono)
  show ?case
  proof (cases "i < length ints \<and> j < length U")
    case False
    have noE: "\<not> ?E i k" for k
    proof
      assume "?E i k"
      then obtain i' where i': "i \<le> i'" "i' < length ints" by blast
      with cont obtain j' where "j \<le> j'" "j' < length U" by blast
      with i' False show False by simp
    qed
    have e: "(if ?E i k then {sample} else {}) = {}" for k
      by (rule if_not_P) (rule noE)
    have stop: "member_sweep ints ?uc sample i j m = Some m"
      using False by (rule member_sweep_stop)
    show ?thesis unfolding stop e by simp
  next
    case True
    then have i: "i < length ints" and j: "j < length U" by simp_all
    let ?x = "ints ! i" and ?u = "U ! j"
    from cont i obtain j' where j': "j \<le> j'" "j' < length U"
      "fst (U ! j') \<le> fst ?x" "snd ?x \<le> snd (U ! j')" by blast
    have uin: "?u \<in> set U" using j by simp
    show ?thesis
    proof (cases "snd ?x \<le> snd ?u")
      case le: True
      have "j' = j"
      proof (rule ccontr)
        assume "j' \<noteq> j"
        with j' have "j < j'" by simp
        from sepn[OF this j'(2)] j'(3) le wfn[OF i] show False by simp
      qed
      with j' have cx: "fst ?u \<le> fst ?x" "snd ?x \<le> snd ?u" by simp_all
      then have ov: "intervals_overlap ?x ?u"
        using wfn[OF i] by (simp add: intervals_overlap_def case_prod_unfold)
      from keys uin obtain l where l: "m (c, ?u) = Some l" by auto
      let ?m1 = "m((c, ?u) \<mapsto> l @ [sample])"
      have step: "member_sweep ints ?uc sample i j m = member_sweep ints ?uc sample (i + 1) j ?m1"
        unfolding member_sweep_step[OF i j] using ov le l by (simp add: membership_append_def)
      have dom1: "dom ?m1 = dom m" using l by auto
      have cont1: "\<forall>i'. i + 1 \<le> i' \<and> i' < length ints \<longrightarrow>
            (\<exists>j'. j \<le> j' \<and> j' < length U \<and>
                  fst (U ! j') \<le> fst (ints ! i') \<and> snd (ints ! i') \<le> snd (U ! j'))"
        using cont by simp
      have keys1: "\<forall>u \<in> set U. (c, u) \<in> dom ?m1" using keys dom1 by blast
      have "(length ints - (i + 1)) + (length U - j) < (length ints - i) + (length U - j)"
        using i by simp
      from less.hyps[OF this cont1 keys1] obtain m' where
        m': "member_sweep ints ?uc sample (i + 1) j ?m1 = Some m'" "dom m' = dom ?m1"
        and sets: "\<forall>k. set (the (m' k)) = set (the (?m1 k)) \<union> (if ?E (i + 1) k then {sample} else {})"
        by blast
      have "set (the (m' k)) = set (the (m k)) \<union> (if ?E i k then {sample} else {})" for k
      proof (cases "k = (c, ?u)")
        case True
        have "?E i k" using i uin ov True by blast
        then have Ei: "(if ?E i k then {sample} else {}) = {sample}" by (rule if_P)
        define A where "A = (if ?E (i + 1) k then {sample} else {})"
        have A: "A \<subseteq> {sample}" by (simp add: A_def)
        have s1: "set (the (m' k)) = set (the (?m1 k)) \<union> A" unfolding A_def using sets by blast
        have m1k: "set (the (?m1 k)) = set (the (m k)) \<union> {sample}" using True l by simp
        show ?thesis unfolding Ei s1 m1k using A by blast
      next
        case False
        have "?E i k \<longleftrightarrow> ?E (i + 1) k"
        proof
          assume "?E (i + 1) k"
          then obtain i' u where w: "i + 1 \<le> i'" "i' < length ints" "u \<in> set U" "k = (c, u)"
            "intervals_overlap (ints ! i') u" by blast
          from w(1) have "i \<le> i'" by simp
          with w show "?E i k" by blast
        next
          assume "?E i k"
          then obtain i' u where w: "i \<le> i'" "i' < length ints" "u \<in> set U" "k = (c, u)"
            "intervals_overlap (ints ! i') u" by blast
          have "i' \<noteq> i"
          proof
            assume "i' = i"
            from w(4) False have "u \<noteq> ?u" by auto
            from separated_by_value[OF sep uin w(3) this[symmetric]]
            show False using w(5) cx unfolding \<open>i' = i\<close>
              by (auto simp: intervals_overlap_def case_prod_unfold)
          qed
          with w(1) have "i + 1 \<le> i'" by simp
          with w show "?E (i + 1) k" by blast
        qed
        then have Eeq: "(if ?E i k then {sample} else {}) = (if ?E (i + 1) k then {sample} else {})"
          by (simp only:)
        have m1k: "?m1 k = m k" using False by simp
        have s1: "set (the (m' k)) = set (the (?m1 k)) \<union> (if ?E (i + 1) k then {sample} else {})"
          using sets by blast
        show ?thesis unfolding s1 m1k Eeq ..
      qed
      then have fin: "\<forall>k. set (the (m' k)) = set (the (m k)) \<union> (if ?E i k then {sample} else {})"
        by blast
      show ?thesis
      proof (intro exI[of _ m'] conjI)
        show "member_sweep ints ?uc sample i j m = Some m'" unfolding step by (rule m'(1))
        show "dom m' = dom m" using m'(2) dom1 by simp
        show "\<forall>k. set (the (m' k)) = set (the (m k)) \<union> (if ?E i k then {sample} else {})"
          by (rule fin)
      qed
    next
      case gt: False
      have "j' \<noteq> j" using j'(4) gt by auto
      with j' have jlt: "j < j'" by simp
      have far: "snd ?u < fst ?x" using sepn[OF jlt j'(2)] j'(3) by simp
      then have nov: "\<not> intervals_overlap ?x ?u"
        by (simp add: intervals_overlap_def case_prod_unfold)
      have step: "member_sweep ints ?uc sample i j m = member_sweep ints ?uc sample i (j + 1) m"
        unfolding member_sweep_step[OF i j] using nov gt by simp
      have cont1: "\<forall>i'. i \<le> i' \<and> i' < length ints \<longrightarrow>
            (\<exists>j'. j + 1 \<le> j' \<and> j' < length U \<and>
                  fst (U ! j') \<le> fst (ints ! i') \<and> snd (ints ! i') \<le> snd (U ! j'))"
      proof (intro allI impI)
        fix i' assume a: "i \<le> i' \<and> i' < length ints"
        with cont obtain j2 where j2: "j \<le> j2" "j2 < length U"
          "fst (U ! j2) \<le> fst (ints ! i')" "snd (ints ! i') \<le> snd (U ! j2)" by blast
        have "j2 \<noteq> j"
        proof
          assume "j2 = j"
          with j2(4) have "snd (ints ! i') \<le> snd ?u" by simp
          moreover have "fst ?x \<le> fst (ints ! i')" using mono a by simp
          moreover have "fst (ints ! i') < snd (ints ! i')" using wfn a by simp
          ultimately show False using far by simp
        qed
        with j2 show "\<exists>j'. j + 1 \<le> j' \<and> j' < length U \<and>
                  fst (U ! j') \<le> fst (ints ! i') \<and> snd (ints ! i') \<le> snd (U ! j')"
          by (intro exI[of _ j2]) simp
      qed
      have "(length ints - i) + (length U - (j + 1)) < (length ints - i) + (length U - j)"
        using j by simp
      from less.hyps[OF this cont1 keys] show ?thesis unfolding step .
    qed
  qed
qed

text \<open>The intervals stored in the nested dictionary are the input intervals, under their
  chromosome and sample.\<close>

lemma setdefault_append_entries:
  "(\<exists>ints. (j, ints) \<in> set (setdefault_append j0 v d) \<and> x \<in> set ints) \<longleftrightarrow>
   (j = j0 \<and> x = v) \<or> (\<exists>ints. (j, ints) \<in> set d \<and> x \<in> set ints)"
proof (induction d)
  case Nil
  show ?case by auto
next
  case (Cons a d)
  obtain j' vs where a: "a = (j', vs)" by (cases a)
  show ?case
  proof (cases "j' = j0")
    case True
    then show ?thesis unfolding a by auto
  next
    case False
    have "(\<exists>ints. (j, ints) \<in> set (setdefault_append j0 v (a # d)) \<and> x \<in> set ints) \<longleftrightarrow>
        (j = j' \<and> x \<in> set vs) \<or> (\<exists>ints. (j, ints) \<in> set (setdefault_append j0 v d) \<and> x \<in> set ints)"
      unfolding a using False by auto
    also have "\<dots> \<longleftrightarrow> (j = j' \<and> x \<in> set vs) \<or> (j = j0 \<and> x = v) \<or>
        (\<exists>ints. (j, ints) \<in> set d \<and> x \<in> set ints)"
      unfolding Cons.IH ..
    also have "\<dots> \<longleftrightarrow> (j = j0 \<and> x = v) \<or> (\<exists>ints. (j, ints) \<in> set (a # d) \<and> x \<in> set ints)"
      unfolding a by auto
    finally show ?thesis .
  qed
qed

lemma nested_append_entries:
  "(\<exists>sm ints. (k, sm) \<in> set (nested_append k0 j0 v d) \<and> (j, ints) \<in> set sm \<and> x \<in> set ints) \<longleftrightarrow>
   (k = k0 \<and> j = j0 \<and> x = v) \<or>
   (\<exists>sm ints. (k, sm) \<in> set d \<and> (j, ints) \<in> set sm \<and> x \<in> set ints)"
proof (induction d)
  case Nil
  show ?case by auto
next
  case (Cons a d)
  obtain k' sm' where a: "a = (k', sm')" by (cases a)
  let ?In = "\<lambda>sm. \<exists>ints. (j, ints) \<in> set sm \<and> x \<in> set ints"
  have ex: "(\<exists>sm ints. (k, sm) \<in> set D \<and> (j, ints) \<in> set sm \<and> x \<in> set ints) \<longleftrightarrow>
      (\<exists>sm. (k, sm) \<in> set D \<and> ?In sm)" for D
    by blast
  show ?case
  proof (cases "k' = k0")
    case True
    have "(\<exists>sm. (k, sm) \<in> set (nested_append k0 j0 v (a # d)) \<and> ?In sm) \<longleftrightarrow>
        (k = k0 \<and> ?In (setdefault_append j0 v sm')) \<or> (\<exists>sm. (k, sm) \<in> set d \<and> ?In sm)"
      unfolding a using True by auto
    also have "\<dots> \<longleftrightarrow> (k = k0 \<and> ((j = j0 \<and> x = v) \<or> ?In sm')) \<or> (\<exists>sm. (k, sm) \<in> set d \<and> ?In sm)"
      unfolding setdefault_append_entries ..
    also have "\<dots> \<longleftrightarrow> (k = k0 \<and> j = j0 \<and> x = v) \<or> (\<exists>sm. (k, sm) \<in> set (a # d) \<and> ?In sm)"
      unfolding a using True by auto
    finally show ?thesis unfolding ex .
  next
    case False
    have "(\<exists>sm. (k, sm) \<in> set (nested_append k0 j0 v (a # d)) \<and> ?In sm) \<longleftrightarrow>
        (k = k' \<and> ?In sm') \<or> (\<exists>sm. (k, sm) \<in> set (nested_append k0 j0 v d) \<and> ?In sm)"
      unfolding a using False by auto
    also have "\<dots> \<longleftrightarrow> (k = k' \<and> ?In sm') \<or> (k = k0 \<and> j = j0 \<and> x = v) \<or>
        (\<exists>sm. (k, sm) \<in> set d \<and> ?In sm)"
      using Cons.IH unfolding ex by simp
    also have "\<dots> \<longleftrightarrow> (k = k0 \<and> j = j0 \<and> x = v) \<or> (\<exists>sm. (k, sm) \<in> set (a # d) \<and> ?In sm)"
      unfolding a by auto
    finally show ?thesis unfolding ex .
  qed
qed

lemma nested_fold_entries:
  "(\<exists>sm ints. (k, sm) \<in> set (foldl (\<lambda>d x. nested_append (kf x) (jf x) (vf x) d) d xs) \<and>
       (j, ints) \<in> set sm \<and> x \<in> set ints) \<longleftrightarrow>
   (\<exists>y \<in> set xs. k = kf y \<and> j = jf y \<and> x = vf y) \<or>
   (\<exists>sm ints. (k, sm) \<in> set d \<and> (j, ints) \<in> set sm \<and> x \<in> set ints)"
proof (induction xs arbitrary: d)
  case Nil
  show ?case by simp
next
  case (Cons y xs)
  show ?case unfolding foldl_Cons Cons.IH nested_append_entries by auto
qed

lemma sample_intervals_entries:
  "(\<exists>sm ints. (c, sm) \<in> set (snd (collect_peaks pbs True)) \<and> (sample, ints) \<in> set sm \<and>
       x \<in> set ints) \<longleftrightarrow>
   (\<exists>peaks. (sample, peaks) \<in> set pbs \<and> (c, x) \<in> set peaks)"
proof -
  have "(\<exists>sm ints. (c, sm) \<in> set (snd (collect_peaks pbs True)) \<and> (sample, ints) \<in> set sm \<and>
       x \<in> set ints) \<longleftrightarrow> (\<exists>y \<in> set (sample_peaks pbs). c = fst (snd y) \<and> sample = fst y \<and> x = snd (snd y))"
    unfolding collect_peaks_split snd_conv if_True nested_fold_entries by simp
  also have "\<dots> \<longleftrightarrow> (sample, c, x) \<in> set (sample_peaks pbs)" by force
  also have "\<dots> \<longleftrightarrow> (\<exists>peaks. (sample, peaks) \<in> set pbs \<and> (c, x) \<in> set peaks)"
    unfolding sample_peaks_def by auto
  finally show ?thesis .
qed

section \<open>The union list\<close>

lemma build_union_list_merged_pool:
  "build_union_list (fst (collect_peaks pbs rm)) = merged_pool pbs"
  unfolding build_union_list_eq merged_pool_def pooled_def chromosomes_def ..

lemma set_chromosomes: "set (chromosomes pbs) = fst ` set (concat (map snd pbs))"
  unfolding chromosomes_def by simp

lemma distinct_chromosomes: "distinct (chromosomes pbs)"
  unfolding chromosomes_def by simp

lemma pooled_empty: "c \<notin> set (chromosomes pbs) \<Longrightarrow> pooled pbs c = []"
  unfolding set_chromosomes pooled_def by (auto simp: filter_empty_conv)

lemma in_pooled:
  "x \<in> set (pooled pbs c) \<longleftrightarrow> (\<exists>sample peaks. (sample, peaks) \<in> set pbs \<and> (c, x) \<in> set peaks)"
  unfolding pooled_def by force

lemma in_merged_pool:
  "(c, u) \<in> set (merged_pool pbs) \<longleftrightarrow> u \<in> set (merge_intervals_1d (pooled pbs c))"
proof -
  obtain s e where u: "u = (s, e)" by (cases u)
  have "(c, s, e) \<in> set (merged_pool pbs) \<longleftrightarrow>
      c \<in> set (chromosomes pbs) \<and> (s, e) \<in> set (merge_intervals_1d (pooled pbs c))"
    unfolding merged_pool_def by (rule in_tagged_concat)
  also have "\<dots> \<longleftrightarrow> (s, e) \<in> set (merge_intervals_1d (pooled pbs c))"
  proof (cases "c \<in> set (chromosomes pbs)")
    case True
    then show ?thesis by simp
  next
    case False
    then show ?thesis by (simp add: pooled_empty)
  qed
  finally show ?thesis unfolding u .
qed

lemma filter_merged_pool:
  "filter (\<lambda>u. fst u = c) (merged_pool pbs) = map (Pair c) (merge_intervals_1d (pooled pbs c))"
proof -
  have "filter (\<lambda>u. fst u = c) (merged_pool pbs) =
      (if c \<in> set (chromosomes pbs)
       then map (\<lambda>(s, e). (c, s, e)) (merge_intervals_1d (pooled pbs c)) else [])"
    unfolding merged_pool_def by (rule filter_tagged_concat[OF distinct_chromosomes])
  also have "\<dots> = map (\<lambda>(s, e). (c, s, e)) (merge_intervals_1d (pooled pbs c))"
    using pooled_empty[of c pbs] by simp
  also have "(\<lambda>(s, e). (c, s, e)) = Pair c" by auto
  finally show ?thesis .
qed

lemma union_by_chrom_lookup:
  "dd_get (build_union_by_chrom ul) c =
     sort_key fst (map (\<lambda>u. (fst (snd u), snd (snd u), u)) (filter (\<lambda>u. fst u = c) ul))"
proof -
  have alt: "build_union_by_chrom ul =
      map (\<lambda>(chrom, l). (chrom, sort_key fst l))
        (foldl (\<lambda>d u. setdefault_append (fst u) (fst (snd u), snd (snd u), u) d) [] ul)"
    unfolding build_union_by_chrom_def
    by (rule arg_cong[where f = "\<lambda>f. map (\<lambda>(chrom, l). (chrom, sort_key fst l)) (foldl f [] ul)"])
       (auto simp: fun_eq_iff)
  show ?thesis
    unfolding alt dd_get_def map_of_map_values group_fold_lookup
    by (auto simp: filter_key_empty)
qed

lemma union_chr_merged_pool:
  "dd_get (build_union_by_chrom (merged_pool pbs)) c =
     map (\<lambda>u. (fst u, snd u, (c, u))) (merge_intervals_1d (pooled pbs c))"
proof -
  let ?U = "merge_intervals_1d (pooled pbs c)"
  have "dd_get (build_union_by_chrom (merged_pool pbs)) c =
      sort_key fst (map (\<lambda>u. (fst u, snd u, (c, u))) ?U)"
    unfolding union_by_chrom_lookup filter_merged_pool by (simp add: comp_def)
  also have "\<dots> = map (\<lambda>u. (fst u, snd u, (c, u))) ?U"
  proof (rule sort_key_id_if_sorted)
    have "map fst (map (\<lambda>u. (fst u, snd u, (c, u))) ?U) = map fst ?U" by (simp add: comp_def)
    then show "sorted (map fst (map (\<lambda>u. (fst u, snd u, (c, u))) ?U))"
      using merge_intervals_1d_props[of "pooled pbs c"] by (simp only:)
  qed
  finally show ?thesis .
qed

section \<open>The loops over samples and chromosomes\<close>

lemma sample_sweep_exact:
  assumes sep: "sorted_wrt (\<lambda>a b. snd a < fst b) U"
    and ok: "\<forall>x \<in> set ints. fst x < snd x \<and> (\<exists>u \<in> set U. fst u \<le> fst x \<and> snd x \<le> snd u)"
    and keys: "\<forall>u \<in> set U. (c, u) \<in> dom m"
  shows "\<exists>m'. member_sweep (sort_key fst ints) (map (\<lambda>u. (fst u, snd u, (c, u))) U) sample 0 0 m
                = Some m' \<and> dom m' = dom m \<and>
              (\<forall>k. set (the (m' k)) = set (the (m k)) \<union> (if hits_key c U ints k then {sample} else {}))"
proof -
  let ?ints = "sort_key fst ints"
  have srt: "sorted (map fst ?ints)" by (rule sorted_sort_key)
  have wf: "\<forall>x \<in> set ?ints. fst x < snd x" using ok by simp
  have cont: "\<forall>i'. 0 \<le> i' \<and> i' < length ?ints \<longrightarrow>
            (\<exists>j'. 0 \<le> j' \<and> j' < length U \<and>
                  fst (U ! j') \<le> fst (?ints ! i') \<and> snd (?ints ! i') \<le> snd (U ! j'))"
  proof (intro allI impI)
    fix i' assume "0 \<le> i' \<and> i' < length ?ints"
    then have "i' < length ?ints" ..
    then have "?ints ! i' \<in> set ?ints" by (rule nth_mem)
    then have "?ints ! i' \<in> set ints" by simp
    with ok obtain u where "u \<in> set U" "fst u \<le> fst (?ints ! i')" "snd (?ints ! i') \<le> snd u"
      by blast
    then show "\<exists>j'. 0 \<le> j' \<and> j' < length U \<and>
                  fst (U ! j') \<le> fst (?ints ! i') \<and> snd (?ints ! i') \<le> snd (U ! j')"
      by (auto simp: in_set_conv_nth)
  qed
  have E: "(\<exists>i' u. 0 \<le> i' \<and> i' < length ?ints \<and> u \<in> set U \<and> k = (c, u) \<and>
                intervals_overlap (?ints ! i') u) \<longleftrightarrow> hits_key c U ints k" for k
  proof
    assume "\<exists>i' u. 0 \<le> i' \<and> i' < length ?ints \<and> u \<in> set U \<and> k = (c, u) \<and>
                intervals_overlap (?ints ! i') u"
    then obtain i' u where w: "i' < length ?ints" "u \<in> set U" "k = (c, u)"
      "intervals_overlap (?ints ! i') u" by blast
    from w(1) have "?ints ! i' \<in> set ?ints" by (rule nth_mem)
    then have "?ints ! i' \<in> set ints" by simp
    with w show "hits_key c U ints k" unfolding hits_key_def by blast
  next
    assume "hits_key c U ints k"
    then obtain x u where w: "x \<in> set ints" "u \<in> set U" "k = (c, u)" "intervals_overlap x u"
      unfolding hits_key_def by blast
    from w(1) have "x \<in> set ?ints" by simp
    then obtain i' where "i' < length ?ints" "?ints ! i' = x" by (metis in_set_conv_nth)
    with w show "\<exists>i' u. 0 \<le> i' \<and> i' < length ?ints \<and> u \<in> set U \<and> k = (c, u) \<and>
                intervals_overlap (?ints ! i') u" by blast
  qed
  from member_sweep_exact[OF sep srt wf cont keys, of sample]
  show ?thesis unfolding E .
qed

lemma sample_loop_exact:
  assumes sep: "sorted_wrt (\<lambda>a b. snd a < fst b) U"
  shows "(\<forall>(sample, ints) \<in> set sm. \<forall>x \<in> set ints.
            fst x < snd x \<and> (\<exists>u \<in> set U. fst u \<le> fst x \<and> snd x \<le> snd u)) \<Longrightarrow>
         (\<forall>u \<in> set U. (c, u) \<in> dom m) \<Longrightarrow>
         \<exists>m'. sample_loop sm (map (\<lambda>u. (fst u, snd u, (c, u))) U) m = Some m' \<and> dom m' = dom m \<and>
           (\<forall>k. set (the (m' k)) = set (the (m k)) \<union>
                  {sample. \<exists>ints. (sample, ints) \<in> set sm \<and> hits_key c U ints k})"
proof (induction sm arbitrary: m)
  case Nil
  show ?case by simp
next
  case (Cons a sm)
  obtain sample ints where a: "a = (sample, ints)" by (cases a)
  let ?uc = "map (\<lambda>u. (fst u, snd u, (c, u))) U"
  have ok1: "\<forall>x \<in> set ints. fst x < snd x \<and> (\<exists>u \<in> set U. fst u \<le> fst x \<and> snd x \<le> snd u)"
    using Cons.prems(1) by (auto simp: a)
  from sample_sweep_exact[OF sep ok1 Cons.prems(2), of sample] obtain m1 where
    m1: "member_sweep (sort_key fst ints) ?uc sample 0 0 m = Some m1" "dom m1 = dom m"
    and s1: "\<forall>k. set (the (m1 k)) = set (the (m k)) \<union> (if hits_key c U ints k then {sample} else {})"
    by blast
  have ok2: "\<forall>(sample, ints) \<in> set sm. \<forall>x \<in> set ints.
            fst x < snd x \<and> (\<exists>u \<in> set U. fst u \<le> fst x \<and> snd x \<le> snd u)"
    using Cons.prems(1) by simp
  have keys2: "\<forall>u \<in> set U. (c, u) \<in> dom m1" using Cons.prems(2) m1(2) by simp
  from Cons.IH[OF ok2 keys2] obtain m' where
    m': "sample_loop sm ?uc m1 = Some m'" "dom m' = dom m1"
    and s2: "\<forall>k. set (the (m' k)) = set (the (m1 k)) \<union>
                  {sample. \<exists>ints. (sample, ints) \<in> set sm \<and> hits_key c U ints k}"
    by blast
  have "set (the (m' k)) = set (the (m k)) \<union>
                  {s. \<exists>ints. (s, ints) \<in> set (a # sm) \<and> hits_key c U ints k}" for k
  proof -
    have eq: "{s. \<exists>ints. (s, ints) \<in> set (a # sm) \<and> hits_key c U ints k} =
        (if hits_key c U ints k then {sample} else {}) \<union>
        {s. \<exists>ints. (s, ints) \<in> set sm \<and> hits_key c U ints k}"
      unfolding a by auto
    from s1 have a1: "set (the (m1 k)) = set (the (m k)) \<union> (if hits_key c U ints k then {sample} else {})"
      by blast
    from s2 have a2: "set (the (m' k)) = set (the (m1 k)) \<union>
                  {sample. \<exists>ints. (sample, ints) \<in> set sm \<and> hits_key c U ints k}" by blast
    show ?thesis unfolding a2 a1 eq by (simp only: Un_assoc)
  qed
  then show ?case
    using m'(1) m'(2) m1 by (intro exI[of _ m']) (simp add: a)
qed

lemma chrom_loop_exact:
  assumes ubc: "\<forall>c. dd_get ubc c = map (\<lambda>u. (fst u, snd u, (c, u))) (Uf c)"
    and sep: "\<forall>c. sorted_wrt (\<lambda>a b. snd a < fst b) (Uf c)"
  shows "(\<forall>(c, sm) \<in> set bys. \<forall>(sample, ints) \<in> set sm. \<forall>x \<in> set ints.
            fst x < snd x \<and> (\<exists>u \<in> set (Uf c). fst u \<le> fst x \<and> snd x \<le> snd u)) \<Longrightarrow>
         (\<forall>c. \<forall>u \<in> set (Uf c). (c, u) \<in> dom m) \<Longrightarrow>
         \<exists>m'. chrom_loop bys ubc m = Some m' \<and> dom m' = dom m \<and>
           (\<forall>k. set (the (m' k)) = set (the (m k)) \<union>
                  {sample. \<exists>c sm ints. (c, sm) \<in> set bys \<and> (sample, ints) \<in> set sm \<and>
                                        hits_key c (Uf c) ints k})"
proof (induction bys arbitrary: m)
  case Nil
  show ?case by simp
next
  case (Cons a bys)
  obtain c sm where a: "a = (c, sm)" by (cases a)
  let ?uc = "map (\<lambda>u. (fst u, snd u, (c, u))) (Uf c)"
  let ?S = "\<lambda>bys k. {sample. \<exists>c sm ints. (c, sm) \<in> set bys \<and> (sample, ints) \<in> set sm \<and>
                                        hits_key c (Uf c) ints k}"
  let ?S1 = "\<lambda>k. {sample. \<exists>ints. (sample, ints) \<in> set sm \<and> hits_key c (Uf c) ints k}"
  have uc: "dd_get ubc c = ?uc" using ubc by blast
  have ok2: "\<forall>(c, sm) \<in> set bys. \<forall>(sample, ints) \<in> set sm. \<forall>x \<in> set ints.
            fst x < snd x \<and> (\<exists>u \<in> set (Uf c). fst u \<le> fst x \<and> snd x \<le> snd u)"
    using Cons.prems(1) by simp
  have split: "?S (a # bys) k = ?S1 k \<union> ?S bys k" for k
    unfolding a by auto
  show ?case
  proof (cases "?uc = []")
    case True
    then have "Uf c = []" by simp
    then have e1: "?S1 k = {}" for k unfolding hits_key_def by simp
    have eq: "?S (a # bys) k = ?S bys k" for k unfolding split e1 by (rule Un_empty_left)
    have step: "chrom_loop (a # bys) ubc m = chrom_loop bys ubc m"
      unfolding a using True uc by (simp add: Let_def)
    from Cons.IH[OF ok2 Cons.prems(2)] show ?thesis unfolding step eq .
  next
    case False
    have ok1: "\<forall>(sample, ints) \<in> set sm. \<forall>x \<in> set ints.
            fst x < snd x \<and> (\<exists>u \<in> set (Uf c). fst u \<le> fst x \<and> snd x \<le> snd u)"
      using Cons.prems(1) by (simp add: a)
    have keys1: "\<forall>u \<in> set (Uf c). (c, u) \<in> dom m" using Cons.prems(2) by blast
    from sample_loop_exact[OF sep[rule_format, of c] ok1 keys1] obtain m1 where
      m1: "sample_loop sm ?uc m = Some m1" "dom m1 = dom m"
      and s1: "\<forall>k. set (the (m1 k)) = set (the (m k)) \<union> ?S1 k"
      by blast
    have keys2: "\<forall>c. \<forall>u \<in> set (Uf c). (c, u) \<in> dom m1" using Cons.prems(2) m1(2) by simp
    from Cons.IH[OF ok2 keys2] obtain m' where
      m': "chrom_loop bys ubc m1 = Some m'" "dom m' = dom m1"
      and s2: "\<forall>k. set (the (m' k)) = set (the (m1 k)) \<union> ?S bys k"
      by blast
    have step: "chrom_loop (a # bys) ubc m = chrom_loop bys ubc m1"
      unfolding a using False uc m1(1) by (simp add: Let_def)
    have fin: "set (the (m' k)) = set (the (m k)) \<union> ?S (a # bys) k" for k
    proof -
      from s1 have a1: "set (the (m1 k)) = set (the (m k)) \<union> ?S1 k" by blast
      from s2 have a2: "set (the (m' k)) = set (the (m1 k)) \<union> ?S bys k" by blast
      show ?thesis unfolding a2 a1 split by (simp only: Un_assoc)
    qed
    show ?thesis
    proof (intro exI[of _ m'] conjI allI)
      show "chrom_loop (a # bys) ubc m = Some m'" unfolding step by (rule m'(1))
      show "dom m' = dom m" using m'(2) m1(2) by simp
      show "set (the (m' k)) = set (the (m k)) \<union> ?S (a # bys) k" for k by (rule fin)
    qed
  qed
qed

lemma sample_loop_total:
  "(\<forall>u \<in> set U. (c, u) \<in> dom m) \<Longrightarrow>
     \<exists>m'. sample_loop sm (map (\<lambda>u. (fst u, snd u, (c, u))) U) m = Some m' \<and> dom m' = dom m"
proof (induction sm arbitrary: m)
  case Nil
  show ?case by simp
next
  case (Cons a sm)
  obtain sample ints where a: "a = (sample, ints)" by (cases a)
  from member_sweep_total[OF Cons.prems, of "sort_key fst ints" sample 0 0] obtain m1 where
    m1: "member_sweep (sort_key fst ints) (map (\<lambda>u. (fst u, snd u, (c, u))) U) sample 0 0 m = Some m1"
      "dom m1 = dom m" by blast
  have "\<forall>u \<in> set U. (c, u) \<in> dom m1" using Cons.prems m1(2) by simp
  from Cons.IH[OF this] show ?case using m1 by (simp add: a)
qed

lemma chrom_loop_total:
  assumes ubc: "\<forall>c. dd_get ubc c = map (\<lambda>u. (fst u, snd u, (c, u))) (Uf c)"
  shows "(\<forall>c. \<forall>u \<in> set (Uf c). (c, u) \<in> dom m) \<Longrightarrow>
     \<exists>m'. chrom_loop bys ubc m = Some m' \<and> dom m' = dom m"
proof (induction bys arbitrary: m)
  case Nil
  show ?case by simp
next
  case (Cons a bys)
  obtain c sm where a: "a = (c, sm)" by (cases a)
  let ?uc = "map (\<lambda>u. (fst u, snd u, (c, u))) (Uf c)"
  have uc: "dd_get ubc c = ?uc" using ubc by blast
  show ?case
  proof (cases "?uc = []")
    case True
    have step: "chrom_loop (a # bys) ubc m = chrom_loop bys ubc m"
      unfolding a using True uc by (simp add: Let_def)
    from Cons.IH[OF Cons.prems] show ?thesis unfolding step .
  next
    case False
    have "\<forall>u \<in> set (Uf c). (c, u) \<in> dom m" using Cons.prems by blast
    from sample_loop_total[OF this, of sm] obtain m1 where
      m1: "sample_loop sm ?uc m = Some m1" "dom m1 = dom m" by blast
    have step: "chrom_loop (a # bys) ubc m = chrom_loop bys ubc m1"
      unfolding a using False uc m1(1) by (simp add: Let_def)
    have "\<forall>c. \<forall>u \<in> set (Uf c). (c, u) \<in> dom m1" using Cons.prems m1(2) by simp
    from Cons.IH[OF this] show ?thesis unfolding step using m1(2) by simp
  qed
qed

section \<open>union_peaks as a whole\<close>

lemma map_of_const:
  "map_of (map (\<lambda>p. (p, v)) xs) k = (if k \<in> set xs then Some v else None)"
  by (induction xs) auto

lemma union_peaks_unfold:
  "union_peaks pbs rm =
     (if \<not> rm then Some (merged_pool pbs, None)
      else (case chrom_loop (snd (collect_peaks pbs rm)) (build_union_by_chrom (merged_pool pbs))
                   (map_of (map (\<lambda>p. (p, [])) (merged_pool pbs))) of
              None \<Rightarrow> None
            | Some m \<Rightarrow>
                Some (merged_pool pbs, Some (\<lambda>k. map_option (\<lambda>l. sort (remdups l)) (m k)))))"
proof -
  obtain a b where ab: "collect_peaks pbs rm = (a, b)" by (cases "collect_peaks pbs rm")
  have bul: "build_union_list a = merged_pool pbs"
    using build_union_list_merged_pool[of pbs rm] unfolding ab by simp
  show ?thesis unfolding union_peaks_def ab prod.case Let_def bul snd_conv ..
qed

lemma membership_keys:
  "\<forall>c. \<forall>u \<in> set (merge_intervals_1d (pooled pbs c)).
      (c, u) \<in> dom (map_of (map (\<lambda>p. (p, [] :: string list)) (merged_pool pbs)))"
proof (intro allI ballI)
  fix c u assume "u \<in> set (merge_intervals_1d (pooled pbs c))"
  then have "(c, u) \<in> set (merged_pool pbs)" by (simp add: in_merged_pool)
  then show "(c, u) \<in> dom (map_of (map (\<lambda>p. (p, [] :: string list)) (merged_pool pbs)))"
    unfolding dom_def map_of_const by simp
qed

lemma union_peaks_total:
  "\<exists>mo. union_peaks pbs rm = Some (merged_pool pbs, mo)"
proof (cases rm)
  case False
  then show ?thesis unfolding union_peaks_unfold by simp
next
  case True
  have ubc: "\<forall>c. dd_get (build_union_by_chrom (merged_pool pbs)) c =
      map (\<lambda>u. (fst u, snd u, (c, u))) (merge_intervals_1d (pooled pbs c))"
    by (simp add: union_chr_merged_pool)
  from chrom_loop_total[OF ubc membership_keys, of "snd (collect_peaks pbs rm)"]
  obtain m' where "chrom_loop (snd (collect_peaks pbs rm)) (build_union_by_chrom (merged_pool pbs))
                   (map_of (map (\<lambda>p. (p, [])) (merged_pool pbs))) = Some m'" by blast
  then show ?thesis unfolding union_peaks_unfold using True by simp
qed

lemma sorted_tagged_concat:
  "sorted cs \<Longrightarrow> sorted (map fst (concat (map (\<lambda>c. map (\<lambda>(s, e). (c, s, e)) (f c)) cs)))"
proof (induction cs)
  case Nil
  show ?case by simp
next
  case (Cons a cs)
  have tail: "\<forall>y \<in> set (map fst (concat (map (\<lambda>c. map (\<lambda>(s, e). (c, s, e)) (f c)) cs))). a \<le> y"
    using Cons.prems by auto
  have own: "sorted (map fst (map (\<lambda>(s, e). (a, s, e)) (f a)))"
    by (induction "f a") (auto simp: sorted_iff_nth_mono)
  have "sorted (map fst (map (\<lambda>(s, e). (a, s, e)) (f a)) @
                map fst (concat (map (\<lambda>c. map (\<lambda>(s, e). (c, s, e)) (f c)) cs)))"
    unfolding sorted_append using own tail Cons by auto
  then show ?case by simp
qed

lemma merged_pool_sorted: "sorted (map fst (merged_pool pbs))"
  unfolding merged_pool_def by (rule sorted_tagged_concat) (simp add: chromosomes_def)

text \<open>Claim C4. For every \<open>peaks_by_sample\<close> input, with or without membership,
  \<open>union_peaks\<close> returns, and its union list is the merged pool: chromosome by chromosome
  in ascending lexicographic order of the chromosome name, \<open>merge_1d\<close> of all intervals
  pooled from all samples on that chromosome. The chromosome column of the list is sorted;
  on every chromosome the list covers exactly the points covered by the input intervals of
  that chromosome; and two input intervals of one chromosome that overlap or merely touch
  lie inside one and the same union peak. None of this needs the intervals to be
  well-formed, so it holds in particular for every input of well-formed intervals.\<close>

theorem union_list_merged_pool:
  "\<exists>mo. union_peaks pbs rm = Some (merged_pool pbs, mo) \<and>
     sorted (map fst (merged_pool pbs)) \<and>
     (\<forall>c p. (\<exists>(c', s, e) \<in> set (merged_pool pbs). c' = c \<and> s \<le> p \<and> p < e) \<longleftrightarrow>
            (\<exists>(sample, peaks) \<in> set pbs. \<exists>(c', s, e) \<in> set peaks. c' = c \<and> s \<le> p \<and> p < e)) \<and>
     (\<forall>sample1 peaks1 sample2 peaks2 c s1 e1 s2 e2.
        (sample1, peaks1) \<in> set pbs \<and> (c, s1, e1) \<in> set peaks1 \<and>
        (sample2, peaks2) \<in> set pbs \<and> (c, s2, e2) \<in> set peaks2 \<and>
        s1 \<le> e2 \<and> s2 \<le> e1 \<longrightarrow>
        (\<exists>(c', us, ue) \<in> set (merged_pool pbs).
            c' = c \<and> us \<le> s1 \<and> e1 \<le> ue \<and> us \<le> s2 \<and> e2 \<le> ue))"
proof -
  from union_peaks_total obtain mo where mo: "union_peaks pbs rm = Some (merged_pool pbs, mo)"
    by blast
  have cover: "(\<exists>(c', s, e) \<in> set (merged_pool pbs). c' = c \<and> s \<le> p \<and> p < e) \<longleftrightarrow>
            (\<exists>(sample, peaks) \<in> set pbs. \<exists>(c', s, e) \<in> set peaks. c' = c \<and> s \<le> p \<and> p < e)"
    for c p
  proof -
    have "(\<exists>(c', s, e) \<in> set (merged_pool pbs). c' = c \<and> s \<le> p \<and> p < e) \<longleftrightarrow>
        (\<exists>u. (c, u) \<in> set (merged_pool pbs) \<and> fst u \<le> p \<and> p < snd u)"
      by force
    also have "\<dots> \<longleftrightarrow> (\<exists>u \<in> set (merge_intervals_1d (pooled pbs c)). fst u \<le> p \<and> p < snd u)"
      unfolding in_merged_pool by blast
    also have "\<dots> \<longleftrightarrow> (\<exists>x \<in> set (pooled pbs c). fst x \<le> p \<and> p < snd x)"
      by (rule merge_cover)
    also have "\<dots> \<longleftrightarrow> (\<exists>x. (\<exists>sample peaks. (sample, peaks) \<in> set pbs \<and> (c, x) \<in> set peaks) \<and>
                          fst x \<le> p \<and> p < snd x)"
      using in_pooled[of _ pbs c] by blast
    also have "\<dots> \<longleftrightarrow>
        (\<exists>(sample, peaks) \<in> set pbs. \<exists>(c', s, e) \<in> set peaks. c' = c \<and> s \<le> p \<and> p < e)"
      by force
    finally show ?thesis .
  qed
  have touch: "\<exists>(c', us, ue) \<in> set (merged_pool pbs).
            c' = c \<and> us \<le> s1 \<and> e1 \<le> ue \<and> us \<le> s2 \<and> e2 \<le> ue"
    if a: "(sample1, peaks1) \<in> set pbs" "(c, s1, e1) \<in> set peaks1"
      "(sample2, peaks2) \<in> set pbs" "(c, s2, e2) \<in> set peaks2" "s1 \<le> e2" "s2 \<le> e1"
    for sample1 peaks1 sample2 peaks2 c s1 e1 s2 e2
  proof -
    let ?U = "merge_intervals_1d (pooled pbs c)"
    have "(s1, e1) \<in> set (pooled pbs c)" "(s2, e2) \<in> set (pooled pbs c)"
      using a unfolding in_pooled by blast+
    then obtain u u' where u: "u \<in> set ?U" "fst u \<le> s1" "e1 \<le> snd u"
      and u': "u' \<in> set ?U" "fst u' \<le> s2" "e2 \<le> snd u'"
      using merge_contains[of "(s1, e1)" "pooled pbs c"] merge_contains[of "(s2, e2)" "pooled pbs c"]
      by auto
    have "u = u'"
    proof (rule ccontr)
      assume "u \<noteq> u'"
      from separated_by_value[OF _ u(1) u'(1) this] merge_intervals_1d_props[of "pooled pbs c"]
      have "snd u < fst u' \<or> snd u' < fst u" by blast
      with u u' a(5,6) show False by auto
    qed
    with u u' have "(c, u) \<in> set (merged_pool pbs)" "fst u \<le> s1" "e1 \<le> snd u" "fst u \<le> s2" "e2 \<le> snd u"
      by (simp_all add: in_merged_pool)
    then show ?thesis by force
  qed
  show ?thesis
  proof (intro exI[of _ mo] conjI allI impI)
    show "union_peaks pbs rm = Some (merged_pool pbs, mo)" by (rule mo)
    show "sorted (map fst (merged_pool pbs))" by (rule merged_pool_sorted)
    show "(\<exists>(c', s, e) \<in> set (merged_pool pbs). c' = c \<and> s \<le> p \<and> p < e) \<longleftrightarrow>
            (\<exists>(sample, peaks) \<in> set pbs. \<exists>(c', s, e) \<in> set peaks. c' = c \<and> s \<le> p \<and> p < e)"
      for c p by (rule cover)
    show "\<exists>(c', us, ue) \<in> set (merged_pool pbs).
            c' = c \<and> us \<le> s1 \<and> e1 \<le> ue \<and> us \<le> s2 \<and> e2 \<le> ue"
      if "(sample1, peaks1) \<in> set pbs \<and> (c, s1, e1) \<in> set peaks1 \<and>
        (sample2, peaks2) \<in> set pbs \<and> (c, s2, e2) \<in> set peaks2 \<and>
        s1 \<le> e2 \<and> s2 \<le> e1"
      for sample1 peaks1 sample2 peaks2 c s1 e1 s2 e2
      using that by (intro touch[of sample1 peaks1 c s1 e1 sample2 peaks2 s2 e2]) simp_all
  qed
qed

theorem union_list_merged_pool_witness:
  "(''s1'', [(''chr1'', 0, 5)]) \<in> set [(''s1'', [(''chr1'', 0 :: int, 5 :: int)]), (''s2'', [(''chr1'', 5, 9)])] \<and>
   (''s2'', [(''chr1'', 5, 9)]) \<in> set [(''s1'', [(''chr1'', 0 :: int, 5 :: int)]), (''s2'', [(''chr1'', 5, 9)])] \<and>
   (0 :: int) \<le> 9 \<and> (5 :: int) \<le> 5 \<and>
   (\<exists>mo. union_peaks [(''s1'', [(''chr1'', 0, 5)]), (''s2'', [(''chr1'', 5, 9)])] True =
      Some ([(''chr1'', 0, 9)], mo))"
proof -
  let ?pbs = "[(''s1'', [(''chr1'', 0 :: int, 5 :: int)]), (''s2'', [(''chr1'', 5, 9)])]"
  have mp: "merged_pool ?pbs = [(''chr1'', 0, 9)]" by code_simp
  have "\<exists>mo. union_peaks ?pbs True = Some (merged_pool ?pbs, mo)"
    using union_list_merged_pool[of ?pbs True] by (elim exE conjE, intro exI)
  then have "\<exists>mo. union_peaks ?pbs True = Some ([(''chr1'', 0, 9)], mo)" unfolding mp .
  then show ?thesis by simp
qed

text \<open>Claim C3. For every mapping from sample ids to lists of well-formed genomic intervals,
  \<open>union_peaks\<close> with membership requested returns a membership map whose keys are the
  union peaks, and for every union peak \<open>u\<close> and sample \<open>s\<close>: \<open>s\<close> occurs in
  \<open>membership[u]\<close> if and only if at least one of the input intervals of \<open>s\<close> is on the
  chromosome of \<open>u\<close> and strictly overlaps \<open>u\<close>; each membership list is free of
  duplicates and sorted ascending (the order of strings is the lexicographic one).\<close>

theorem union_membership_exact:
  assumes wf: "\<forall>(sample, peaks) \<in> set pbs. \<forall>(c, s, e) \<in> set peaks. s < e"
  shows "\<exists>ul mem. union_peaks pbs True = Some (ul, Some mem) \<and> dom mem = set ul \<and>
     (\<forall>(c, us, ue) \<in> set ul.
        \<exists>l. mem (c, us, ue) = Some l \<and> distinct l \<and> sorted l \<and>
          (\<forall>sample. sample \<in> set l \<longleftrightarrow>
             (\<exists>peaks. (sample, peaks) \<in> set pbs \<and>
                (\<exists>(c', s, e) \<in> set peaks. c' = c \<and> s < ue \<and> us < e))))"
proof -
  let ?ul = "merged_pool pbs"
  let ?Uf = "\<lambda>c. merge_intervals_1d (pooled pbs c)"
  let ?bys = "snd (collect_peaks pbs True)"
  let ?m0 = "map_of (map (\<lambda>p. (p, [] :: string list)) ?ul)"
  have ubc: "\<forall>c. dd_get (build_union_by_chrom ?ul) c = map (\<lambda>u. (fst u, snd u, (c, u))) (?Uf c)"
    by (simp add: union_chr_merged_pool)
  have sep: "\<forall>c. sorted_wrt (\<lambda>a b. snd a < fst b) (?Uf c)"
    using merge_intervals_1d_props by blast
  have ok: "\<forall>(c, sm) \<in> set ?bys. \<forall>(sample, ints) \<in> set sm. \<forall>x \<in> set ints.
            fst x < snd x \<and> (\<exists>u \<in> set (?Uf c). fst u \<le> fst x \<and> snd x \<le> snd u)"
  proof (intro ballI, clarify)
    fix c sm sample ints a b
    assume "(c, sm) \<in> set ?bys" "(sample, ints) \<in> set sm" "(a, b) \<in> set ints"
    then have "\<exists>sm ints. (c, sm) \<in> set ?bys \<and> (sample, ints) \<in> set sm \<and> (a, b) \<in> set ints"
      by blast
    then obtain peaks where p: "(sample, peaks) \<in> set pbs" "(c, a, b) \<in> set peaks"
      unfolding sample_intervals_entries by blast
    with wf have "a < b" by fastforce
    moreover have "(a, b) \<in> set (pooled pbs c)" unfolding in_pooled using p by blast
    from merge_contains[OF this]
    have "\<exists>u \<in> set (?Uf c). fst u \<le> a \<and> b \<le> snd u" by simp
    ultimately show "fst (a, b) < snd (a, b) \<and>
        (\<exists>u \<in> set (?Uf c). fst u \<le> fst (a, b) \<and> snd (a, b) \<le> snd u)" by simp
  qed
  from chrom_loop_exact[of "build_union_by_chrom ?ul" ?Uf ?bys ?m0, OF ubc sep ok membership_keys]
  obtain m' where m': "chrom_loop ?bys (build_union_by_chrom ?ul) ?m0 = Some m'"
    and dom: "dom m' = dom ?m0"
    and sets: "\<forall>k. set (the (m' k)) = set (the (?m0 k)) \<union>
                  {sample. \<exists>c sm ints. (c, sm) \<in> set ?bys \<and> (sample, ints) \<in> set sm \<and>
                                        hits_key c (?Uf c) ints k}"
    by blast
  let ?mem = "\<lambda>k. map_option (\<lambda>l. sort (remdups l)) (m' k)"
  have res: "union_peaks pbs True = Some (?ul, Some ?mem)"
    unfolding union_peaks_unfold using m' by simp
  have dom0: "dom ?m0 = set ?ul" unfolding dom_def map_of_const by simp
  have dmem: "dom ?mem = set ?ul" using dom dom0 by (simp add: dom_def)
  have entry: "\<exists>l. ?mem (c, us, ue) = Some l \<and> distinct l \<and> sorted l \<and>
          (\<forall>sample. sample \<in> set l \<longleftrightarrow>
             (\<exists>peaks. (sample, peaks) \<in> set pbs \<and>
                (\<exists>(c', s, e) \<in> set peaks. c' = c \<and> s < ue \<and> us < e)))"
    if k: "(c, us, ue) \<in> set ?ul" for c us ue
  proof -
    let ?k = "(c, us, ue)"
    from k dom dom0 obtain l0 where l0: "m' ?k = Some l0" by blast
    have m0k: "the (?m0 ?k) = []" using k unfolding map_of_const by simp
    have uin: "(us, ue) \<in> set (?Uf c)" using k by (simp add: in_merged_pool)
    from sets have "set (the (m' ?k)) = set (the (?m0 ?k)) \<union>
                  {sample. \<exists>c sm ints. (c, sm) \<in> set ?bys \<and> (sample, ints) \<in> set sm \<and>
                                        hits_key c (?Uf c) ints ?k}" by blast
    then have set_l0: "set l0 = {sample. \<exists>c' sm ints. (c', sm) \<in> set ?bys \<and> (sample, ints) \<in> set sm \<and>
                                        hits_key c' (?Uf c') ints ?k}"
      unfolding m0k l0 by simp
    have char: "sample \<in> set l0 \<longleftrightarrow>
             (\<exists>peaks. (sample, peaks) \<in> set pbs \<and>
                (\<exists>(c', s, e) \<in> set peaks. c' = c \<and> s < ue \<and> us < e))" for sample
    proof
      assume "sample \<in> set l0"
      then obtain c' sm ints where w: "(c', sm) \<in> set ?bys" "(sample, ints) \<in> set sm"
        "hits_key c' (?Uf c') ints ?k" unfolding set_l0 by blast
      from w(3) obtain x where x: "x \<in> set ints" "c' = c" "intervals_overlap x (us, ue)"
        unfolding hits_key_def by auto
      from w(1,2) x(1,2) have "\<exists>sm ints. (c, sm) \<in> set ?bys \<and> (sample, ints) \<in> set sm \<and> x \<in> set ints"
        by blast
      then obtain peaks where p: "(sample, peaks) \<in> set pbs" "(c, x) \<in> set peaks"
        unfolding sample_intervals_entries by blast
      obtain s e where xe: "x = (s, e)" by (cases x)
      from x(3) have "s < ue \<and> us < e" unfolding xe intervals_overlap_def by simp
      with p show "\<exists>peaks. (sample, peaks) \<in> set pbs \<and>
                (\<exists>(c', s, e) \<in> set peaks. c' = c \<and> s < ue \<and> us < e)"
        unfolding xe by (intro exI[of _ peaks]) force
    next
      assume "\<exists>peaks. (sample, peaks) \<in> set pbs \<and>
                (\<exists>(c', s, e) \<in> set peaks. c' = c \<and> s < ue \<and> us < e)"
      then obtain peaks s e where p: "(sample, peaks) \<in> set pbs" "(c, s, e) \<in> set peaks"
        "s < ue" "us < e" by auto
      then have "\<exists>peaks. (sample, peaks) \<in> set pbs \<and> (c, (s, e)) \<in> set peaks" by blast
      then obtain sm ints where w: "(c, sm) \<in> set ?bys" "(sample, ints) \<in> set sm" "(s, e) \<in> set ints"
        unfolding sample_intervals_entries[symmetric] by blast
      have "intervals_overlap (s, e) (us, ue)" using p(3,4) by (simp add: intervals_overlap_def)
      with w(3) uin have "hits_key c (?Uf c) ints ?k" unfolding hits_key_def by blast
      with w show "sample \<in> set l0" unfolding set_l0 by blast
    qed
    let ?l = "sort (remdups l0)"
    have "?mem ?k = Some ?l" using l0 by simp
    moreover have "distinct ?l" by simp
    moreover have "sorted ?l" by simp
    moreover have "set ?l = set l0" by simp
    ultimately show ?thesis using char by (intro exI[of _ ?l]) simp
  qed
  show ?thesis
  proof (intro exI[of _ ?ul] exI[of _ ?mem] conjI)
    show "union_peaks pbs True = Some (?ul, Some ?mem)" by (rule res)
    show "dom ?mem = set ?ul" by (rule dmem)
    show "\<forall>(c, us, ue) \<in> set ?ul.
        \<exists>l. ?mem (c, us, ue) = Some l \<and> distinct l \<and> sorted l \<and>
          (\<forall>sample. sample \<in> set l \<longleftrightarrow>
             (\<exists>peaks. (sample, peaks) \<in> set pbs \<and>
                (\<exists>(c', s, e) \<in> set peaks. c' = c \<and> s < ue \<and> us < e)))"
      using entry by blast
  qed
qed

theorem union_membership_exact_witness:
  "\<exists>ul mem. union_peaks
       [(''sampleA'', [(''chr1'', 100, 180)]), (''sampleB'', [(''chr1'', 150, 220)]),
        (''sampleC'', [(''chr1'', 210, 260)])] True = Some (ul, Some mem) \<and>
     ul = [(''chr1'', 100, 260)] \<and>
     mem (''chr1'', 100, 260) = Some [''sampleA'', ''sampleB'', ''sampleC'']"
proof -
  let ?pbs = "[(''sampleA'', [(''chr1'', 100 :: int, 180 :: int)]), (''sampleB'', [(''chr1'', 150, 220)]),
        (''sampleC'', [(''chr1'', 210, 260)])]"
  have wf: "\<forall>(sample, peaks) \<in> set ?pbs. \<forall>(c, s, e) \<in> set peaks. s < e" by simp
  have ev: "(case union_peaks ?pbs True of
               Some (ul, Some mem) \<Rightarrow> ul = [(''chr1'', 100, 260)] \<and>
                  mem (''chr1'', 100, 260) = Some [''sampleA'', ''sampleB'', ''sampleC'']
             | _ \<Rightarrow> False)"
    by code_simp
  have "\<exists>ul mem. union_peaks ?pbs True = Some (ul, Some mem)"
    using union_membership_exact[OF wf] by (elim exE conjE, intro exI)
  then obtain ul mem where "union_peaks ?pbs True = Some (ul, Some mem)" by (elim exE)
  with ev show ?thesis by simp
qed

section \<open>What the sweep does guarantee\<close>

text \<open>The pairs reported by \<open>find_overlaps_1d\<close> on start-sorted lists are pairwise
  different and each of them is a pair of overlapping intervals: every step tests the
  current pair once and then advances one of the two pointers.\<close>

lemma sweep_1d_sound_unique:
  "distinct res \<Longrightarrow>
   (\<forall>(i', j') \<in> set res. i' + j' < i + j \<and> i' < length a \<and> j' < length b \<and>
        intervals_overlap (a ! i') (b ! j')) \<Longrightarrow>
   distinct (sweep_1d a b i j res) \<and>
   (\<forall>(i', j') \<in> set (sweep_1d a b i j res). i' < length a \<and> j' < length b \<and>
        intervals_overlap (a ! i') (b ! j'))"
proof (induction "(length a - i) + (length b - j)" arbitrary: i j res rule: less_induct)
  case less
  show ?case
  proof (cases "i < length a \<and> j < length b")
    case False
    have "sweep_1d a b i j res = res" by (subst sweep_1d.simps) (simp only: False if_False)
    with less.prems show ?thesis by auto
  next
    case True
    let ?res' = "if intervals_overlap (a ! i) (b ! j) then res @ [(i, j)] else res"
    have old: "i' + j' < i + j \<and> i' < length a \<and> j' < length b \<and>
        intervals_overlap (a ! i') (b ! j')" if "(i', j') \<in> set res" for i' j'
      using bspec[OF less.prems(2) that] by simp
    have notin: "(i, j) \<notin> set res"
    proof
      assume "(i, j) \<in> set res"
      from old[OF this] show False by simp
    qed
    have d': "distinct ?res'" using less.prems(1) notin by simp
    have inv: "i' + j' < i + j + 1 \<and> i' < length a \<and> j' < length b \<and>
        intervals_overlap (a ! i') (b ! j')" if "(i', j') \<in> set ?res'" for i' j'
    proof (cases "(i', j') \<in> set res")
      case True
      from old[OF this] show ?thesis by simp
    next
      case False
      with that have "intervals_overlap (a ! i) (b ! j)" "(i', j') = (i, j)"
        by (simp_all split: if_splits)
      with \<open>i < length a \<and> j < length b\<close> show ?thesis by simp
    qed
    have inv1: "\<forall>(i', j') \<in> set ?res'. i' + j' < (i + 1) + j \<and> i' < length a \<and> j' < length b \<and>
        intervals_overlap (a ! i') (b ! j')"
    proof (intro ballI, clarify)
      fix i' j' assume "(i', j') \<in> set ?res'"
      from inv[OF this] show "i' + j' < (i + 1) + j \<and> i' < length a \<and> j' < length b \<and>
        intervals_overlap (a ! i') (b ! j')" by simp
    qed
    have inv2: "\<forall>(i', j') \<in> set ?res'. i' + j' < i + (j + 1) \<and> i' < length a \<and> j' < length b \<and>
        intervals_overlap (a ! i') (b ! j')"
    proof (intro ballI, clarify)
      fix i' j' assume "(i', j') \<in> set ?res'"
      from inv[OF this] show "i' + j' < i + (j + 1) \<and> i' < length a \<and> j' < length b \<and>
        intervals_overlap (a ! i') (b ! j')" by simp
    qed
    show ?thesis
    proof (cases "snd (a ! i) \<le> snd (b ! j)")
      case le: True
      have step: "sweep_1d a b i j res = sweep_1d a b (i + 1) j ?res'"
        by (subst sweep_1d.simps) (use True le in \<open>simp add: Let_def\<close>)
      have m: "(length a - (i + 1)) + (length b - j) < (length a - i) + (length b - j)"
        using True by linarith
      from less.hyps[OF m d' inv1] show ?thesis unfolding step .
    next
      case gt: False
      have step: "sweep_1d a b i j res = sweep_1d a b i (j + 1) ?res'"
        by (subst sweep_1d.simps) (use True gt in \<open>simp add: Let_def\<close>)
      have m: "(length a - i) + (length b - (j + 1)) < (length a - i) + (length b - j)"
        using True by linarith
      from less.hyps[OF m d' inv2] show ?thesis unfolding step .
    qed
  qed
qed

lemma find_overlaps_1d_sound_unique:
  assumes "sorted (map fst A)" "sorted (map fst B)"
  shows "distinct (find_overlaps_1d A B) \<and>
   (\<forall>(i, j) \<in> set (find_overlaps_1d A B). i < length A \<and> j < length B \<and>
        intervals_overlap (A ! i) (B ! j))"
proof -
  have "sort_key fst A = A" "sort_key fst B = B"
    using assms by (simp_all add: sort_key_id_if_sorted)
  then have "find_overlaps_1d A B = sweep_1d A B 0 0 []"
    by (simp add: find_overlaps_1d_def Let_def)
  with sweep_1d_sound_unique[of "[]" 0 0 A B] show ?thesis by simp
qed

end
